theory Spec2Isabelle
  imports Complex_Main "HOL-Library.Multiset" "HOL-Library.Sublist"
begin

section \<open>Conventions\<close>

text \<open>
  Python floats are modelled as \<^typ>\<open>real\<close> (no rounding), Python ints as \<^typ>\<open>int\<close>,
  Python strings as \<^typ>\<open>string\<close>, restricted to ASCII (one \<^typ>\<open>char\<close> per character).
  Clock readings (\<^verbatim>\<open>time.monotonic()\<close>, \<^verbatim>\<open>time.time()\<close>) are arguments of the operation
  that reads them, in the order the source reads them. Objects mutated in place are
  returned updated. An exception that escapes a method is returned next to the state the
  method had reached when it was raised.
\<close>

datatype py_error = KeyError | AttributeError | TypeError

section \<open>Python strings and library functions\<close>

text \<open>
  The string methods the sources use, on ASCII strings. \<^verbatim>\<open>x in s\<close> for strings is
  \<^const>\<open>sublist\<close>, \<^verbatim>\<open>s.startswith(p)\<close> is \<^const>\<open>prefix\<close>, \<^verbatim>\<open>s.endswith(p)\<close> is
  \<^const>\<open>suffix\<close>.
\<close>

definition isspace :: "char \<Rightarrow> bool" where
  "isspace c = (let n = of_char c :: nat in (9 \<le> n \<and> n \<le> 13) \<or> (28 \<le> n \<and> n \<le> 32))"

definition lower_char :: "char \<Rightarrow> char" where
  "lower_char c = (let n = of_char c :: nat in if 65 \<le> n \<and> n \<le> 90 then char_of (n + 32) else c)"

definition upper_char :: "char \<Rightarrow> char" where
  "upper_char c = (let n = of_char c :: nat in if 97 \<le> n \<and> n \<le> 122 then char_of (n - 32) else c)"

definition lower :: "string \<Rightarrow> string" where
  "lower s = map lower_char s"

definition upper :: "string \<Rightarrow> string" where
  "upper s = map upper_char s"

text \<open>\<^verbatim>\<open>s.strip()\<close> and \<^verbatim>\<open>s.strip(chars)\<close>.\<close>

definition strip :: "string \<Rightarrow> string" where
  "strip s = rev (dropWhile isspace (rev (dropWhile isspace s)))"

definition strip_chars :: "string \<Rightarrow> string \<Rightarrow> string" where
  "strip_chars cs s = rev (dropWhile (\<lambda>c. c \<in> set cs) (rev (dropWhile (\<lambda>c. c \<in> set cs) s)))"

text \<open>\<^verbatim>\<open>str(n)\<close> for an integer.\<close>

fun str_nat :: "nat \<Rightarrow> string" where
  "str_nat n =
     (if n < 10 then [''0123456789'' ! n]
      else str_nat (n div 10) @ [''0123456789'' ! (n mod 10)])"

declare str_nat.simps [simp del]

definition str_int :: "int \<Rightarrow> string" where
  "str_int i = (if i < 0 then CHR ''-'' # str_nat (nat (- i)) else str_nat (nat i))"

text \<open>\<^verbatim>\<open>str(x)\<close> for an \<^verbatim>\<open>Optional[str]\<close>.\<close>

definition str_opt :: "string option \<Rightarrow> string" where
  "str_opt x = (case x of None \<Rightarrow> ''None'' | Some s \<Rightarrow> s)"

text \<open>
  Functions of Python's standard library are parameters of the model, collected in one
  record. \<open>urlparse\<close> returns the message of the \<^verbatim>\<open>ValueError\<close> it raises, or the parts
  of the URL; reading \<^verbatim>\<open>.port\<close> may raise in turn. \<open>re_match\<close> is
  \<^verbatim>\<open>re.match(pattern, s) is not None\<close>; \<open>re_search_i\<close> and \<open>re_findall_i\<close> are
  \<^verbatim>\<open>re.search\<close> and \<^verbatim>\<open>re.findall\<close> with \<^verbatim>\<open>re.IGNORECASE\<close>. \<open>json_loads\<close> is \<^verbatim>\<open>None\<close>
  where \<^verbatim>\<open>json.loads\<close> raises \<^verbatim>\<open>JSONDecodeError\<close>. \<open>dict_str\<close> is \<^verbatim>\<open>str\<close> of a dictionary
  of strings.
\<close>

record ParseResult =
  pr_scheme :: string
  pr_netloc :: string
  pr_hostname :: "string option"
  pr_port :: "string + int option"
  pr_username :: "string option"
  pr_password :: "string option"

datatype json =
    JNull
  | JBool bool
  | JNumber real
  | JString string
  | JArray "json list"
  | JObject "(string \<times> json) list"

datatype re_group = MStr string | MTuple "string list"

record pylib =
  urlparse :: "string \<Rightarrow> string + ParseResult"
  re_match :: "string \<Rightarrow> string \<Rightarrow> bool"
  re_search_i :: "string \<Rightarrow> string \<Rightarrow> bool"
  re_findall_i :: "string \<Rightarrow> string \<Rightarrow> re_group list"
  json_loads :: "string \<Rightarrow> json option"
  dict_str :: "(string \<rightharpoonup> string) \<Rightarrow> string"

text \<open>The logger \<^verbatim>\<open>adv_logger\<close>: every call is recorded with its level and message.\<close>

datatype log_level = LogDebug | LogInfo | LogWarning | LogError

type_synonym log_entry = "log_level \<times> string"

section \<open>scripts/constants.py\<close>

definition HTTP_TOO_MANY_REQUESTS :: int where
  "HTTP_TOO_MANY_REQUESTS = 429"

definition DEFAULT_RATE_LIMIT :: real where
  "DEFAULT_RATE_LIMIT = 50"

definition DEFAULT_BURST_SIZE :: int where
  "DEFAULT_BURST_SIZE = 10"

definition RATE_LIMIT_MIN :: real where
  "RATE_LIMIT_MIN = 1"

definition RATE_LIMIT_MAX :: real where
  "RATE_LIMIT_MAX = 1000"

section \<open>scripts/rate\_limiter.py\<close>

subsection \<open>RateLimitStats and TokenBucket\<close>

record RateLimitStats =
  total_requests :: int
  throttled_requests :: int
  rate_limit_hits :: int
  current_rate :: real
  last_429_time :: real

definition RateLimitStats_init :: "real \<Rightarrow> RateLimitStats" where
  "RateLimitStats_init r =
     \<lparr>total_requests = 0, throttled_requests = 0, rate_limit_hits = 0,
      current_rate = r, last_429_time = 0\<rparr>"

record TokenBucket =
  rate :: real
  capacity :: int
  tokens :: real
  last_update :: real

text \<open>\<^verbatim>\<open>TokenBucket.__init__(rate, capacity)\<close>; \<open>now\<close> is the reading of the monotonic clock.\<close>

definition TokenBucket_init :: "real \<Rightarrow> int \<Rightarrow> real \<Rightarrow> TokenBucket" where
  "TokenBucket_init r c now =
     \<lparr>rate = max RATE_LIMIT_MIN (min r RATE_LIMIT_MAX),
      capacity = max 1 c,
      tokens = real_of_int c,
      last_update = now\<rparr>"

text \<open>\<^verbatim>\<open>TokenBucket.acquire(tokens)\<close>: refill, then deduct if enough tokens are there.\<close>

definition TokenBucket_acquire :: "TokenBucket \<Rightarrow> int \<Rightarrow> real \<Rightarrow> bool \<times> TokenBucket" where
  "TokenBucket_acquire b n now =
     (let elapsed = now - last_update b;
          b1 = b\<lparr>tokens := min (real_of_int (capacity b)) (tokens b + elapsed * rate b)\<rparr>;
          b2 = b1\<lparr>last_update := now\<rparr>
      in if tokens b2 \<ge> real_of_int n
         then (True, b2\<lparr>tokens := tokens b2 - real_of_int n\<rparr>)
         else (False, b2))"

definition TokenBucket_update_rate :: "TokenBucket \<Rightarrow> real \<Rightarrow> TokenBucket" where
  "TokenBucket_update_rate b new_rate =
     b\<lparr>rate := max RATE_LIMIT_MIN (min new_rate RATE_LIMIT_MAX)\<rparr>"

text \<open>
  A sequence of \<^verbatim>\<open>acquire\<close> calls, each with its token count and its clock reading;
  the result lists the bucket after every call.
\<close>

fun acquire_trace :: "TokenBucket \<Rightarrow> (int \<times> real) list \<Rightarrow> TokenBucket list" where
  "acquire_trace b [] = []"
| "acquire_trace b ((n, now) # calls) =
     (let b' = snd (TokenBucket_acquire b n now) in b' # acquire_trace b' calls)"

text \<open>A monotonic clock: the readings never decrease, starting from \<open>t\<close>.\<close>

fun monotonic_from :: "real \<Rightarrow> real list \<Rightarrow> bool" where
  "monotonic_from t [] = True"
| "monotonic_from t (now # ts) = (t \<le> now \<and> monotonic_from now ts)"

definition bucket_ok :: "TokenBucket \<Rightarrow> bool" where
  "bucket_ok b = (0 \<le> tokens b \<and> tokens b \<le> real_of_int (capacity b) \<and> 0 \<le> rate b)"

subsection \<open>AdaptiveRateLimiter\<close>

record AdaptiveRateLimiter =
  current_rate :: real
  min_rate :: real
  max_rate :: real
  backoff_factor :: real
  recovery_factor :: real
  bucket :: TokenBucket
  stats :: RateLimitStats
  host_buckets :: "string \<rightharpoonup> TokenBucket"
  host_stats :: "string \<rightharpoonup> RateLimitStats"
  consecutive_successes :: int
  success_threshold :: int

text \<open>
  \<^verbatim>\<open>AdaptiveRateLimiter.__init__(initial_rate, burst_size, min_rate, max_rate,
  backoff_factor, recovery_factor)\<close>; the defaults of the source are
  \<open>DEFAULT_RATE_LIMIT\<close>, \<open>DEFAULT_BURST_SIZE\<close>, 1, 100, 0.5 and 1.1.
\<close>

definition AdaptiveRateLimiter_init ::
  "real \<Rightarrow> int \<Rightarrow> real \<Rightarrow> real \<Rightarrow> real \<Rightarrow> real \<Rightarrow> real \<Rightarrow> AdaptiveRateLimiter" where
  "AdaptiveRateLimiter_init initial_rate burst_size mn mx bf rf now =
     \<lparr>current_rate = initial_rate,
      min_rate = mn,
      max_rate = mx,
      backoff_factor = bf,
      recovery_factor = rf,
      bucket = TokenBucket_init initial_rate burst_size now,
      stats = RateLimitStats_init initial_rate,
      host_buckets = Map.empty,
      host_stats = Map.empty,
      consecutive_successes = 0,
      success_threshold = 50\<rparr>"

text \<open>Python's truth value of an \<^verbatim>\<open>Optional[str]\<close>: neither \<^verbatim>\<open>None\<close> nor empty.\<close>

definition truthy :: "string option \<Rightarrow> bool" where
  "truthy host = (case host of None \<Rightarrow> False | Some h \<Rightarrow> h \<noteq> [])"

text \<open>
  The block of \<^verbatim>\<open>acquire\<close> that creates the bucket and the statistics of a host seen
  for the first time; \<open>now\<close> is the clock reading of the new bucket's constructor.
\<close>

definition ensure_host_bucket :: "AdaptiveRateLimiter \<Rightarrow> string \<Rightarrow> real \<Rightarrow> AdaptiveRateLimiter" where
  "ensure_host_bucket L h now =
     (if host_buckets L h = None
      then L\<lparr>host_buckets := (host_buckets L)
               (h \<mapsto> TokenBucket_init (current_rate L / 2) (max 1 (DEFAULT_BURST_SIZE div 2)) now),
             host_stats := (host_stats L)(h \<mapsto> RateLimitStats_init 0)\<rparr>
      else L)"

definition count_throttled :: "AdaptiveRateLimiter \<Rightarrow> AdaptiveRateLimiter" where
  "count_throttled L =
     L\<lparr>stats := (stats L)\<lparr>throttled_requests := throttled_requests (stats L) + 1\<rparr>\<rparr>"

text \<open>
  \<^verbatim>\<open>AdaptiveRateLimiter.acquire(host)\<close>. The clock is read by the global bucket (\<open>t1\<close>),
  by the constructor of a new host bucket (\<open>t2\<close>) and by the host bucket (\<open>t3\<close>).
\<close>

definition AdaptiveRateLimiter_acquire ::
  "AdaptiveRateLimiter \<Rightarrow> string option \<Rightarrow> real \<Rightarrow> real \<Rightarrow> real
     \<Rightarrow> (py_error + bool) \<times> AdaptiveRateLimiter" where
  "AdaptiveRateLimiter_acquire L host t1 t2 t3 =
     (let L1 = L\<lparr>stats := (stats L)\<lparr>total_requests := total_requests (stats L) + 1\<rparr>\<rparr>;
          granted = TokenBucket_acquire (bucket L1) 1 t1;
          L2 = L1\<lparr>bucket := snd granted\<rparr>
      in if \<not> fst granted then (Inr False, count_throttled L2)
         else if truthy host then
           (let h = the host;
                L3 = ensure_host_bucket L2 h t2
            in case host_buckets L3 h of
                 None \<Rightarrow> (Inl KeyError, L3)
               | Some hb \<Rightarrow>
                   (let host_granted = TokenBucket_acquire hb 1 t3;
                        L4 = L3\<lparr>host_buckets := (host_buckets L3)(h \<mapsto> snd host_granted)\<rparr>
                    in if \<not> fst host_granted then (Inr False, count_throttled L4)
                       else case host_stats L4 h of
                              None \<Rightarrow> (Inl KeyError, L4)
                            | Some hs \<Rightarrow>
                                (Inr True,
                                 L4\<lparr>host_stats := (host_stats L4)
                                      (h \<mapsto> hs\<lparr>total_requests := total_requests hs + 1\<rparr>)\<rparr>)))
         else (Inr True, L2))"

text \<open>
  \<^verbatim>\<open>_handle_rate_limit_hit(host)\<close>; \<open>tw1\<close> and \<open>tw2\<close> are the two readings of
  \<^verbatim>\<open>time.time()\<close>.
\<close>

definition handle_rate_limit_hit ::
  "AdaptiveRateLimiter \<Rightarrow> string option \<Rightarrow> real \<Rightarrow> real \<Rightarrow> py_error option \<times> AdaptiveRateLimiter" where
  "handle_rate_limit_hit L host tw1 tw2 =
     (let L1 = L\<lparr>stats := (stats L)\<lparr>rate_limit_hits := rate_limit_hits (stats L) + 1,
                                      last_429_time := tw1\<rparr>,
                 consecutive_successes := 0\<rparr>;
          new_rate = max (min_rate L1) (current_rate L1 * backoff_factor L1);
          L2 = L1\<lparr>current_rate := new_rate,
                  bucket := TokenBucket_update_rate (bucket L1) new_rate,
                  stats := (stats L1)\<lparr>RateLimitStats.current_rate := new_rate\<rparr>\<rparr>
      in if truthy host \<and> host_buckets L2 (the host) \<noteq> None then
           (let h = the host
            in case host_stats L2 h of
                 None \<Rightarrow> (Some KeyError, L2)
               | Some hs \<Rightarrow>
                   (let hs1 = hs\<lparr>rate_limit_hits := rate_limit_hits hs + 1, last_429_time := tw2\<rparr>;
                        host_rate = max (min_rate L2) (new_rate / 2);
                        hb = TokenBucket_update_rate (the (host_buckets L2 h)) host_rate
                    in (None,
                        L2\<lparr>host_buckets := (host_buckets L2)(h \<mapsto> hb),
                           host_stats := (host_stats L2)
                             (h \<mapsto> hs1\<lparr>RateLimitStats.current_rate := host_rate\<rparr>)\<rparr>)))
         else (None, L2))"

definition handle_success :: "AdaptiveRateLimiter \<Rightarrow> string option \<Rightarrow> AdaptiveRateLimiter" where
  "handle_success L host =
     (let L1 = L\<lparr>consecutive_successes := consecutive_successes L + 1\<rparr>
      in if consecutive_successes L1 \<ge> success_threshold L1 then
           (let L2 = L1\<lparr>consecutive_successes := 0\<rparr>;
                new_rate = min (max_rate L2) (current_rate L2 * recovery_factor L2)
            in L2\<lparr>current_rate := new_rate,
                  bucket := TokenBucket_update_rate (bucket L2) new_rate,
                  stats := (stats L2)\<lparr>RateLimitStats.current_rate := new_rate\<rparr>\<rparr>)
         else L1)"

definition on_response ::
  "AdaptiveRateLimiter \<Rightarrow> int \<Rightarrow> string option \<Rightarrow> real \<Rightarrow> real \<Rightarrow> py_error option \<times> AdaptiveRateLimiter" where
  "on_response L status_code host tw1 tw2 =
     (if status_code = HTTP_TOO_MANY_REQUESTS then handle_rate_limit_hit L host tw1 tw2
      else if 200 \<le> status_code \<and> status_code < 400 then (None, handle_success L host)
      else (None, L))"

text \<open>\<^verbatim>\<open>AdaptiveRateLimiter.reset()\<close>; \<open>now\<close> is read by the new bucket's constructor.\<close>

definition reset :: "AdaptiveRateLimiter \<Rightarrow> real \<Rightarrow> AdaptiveRateLimiter" where
  "reset L now =
     L\<lparr>current_rate := DEFAULT_RATE_LIMIT,
       bucket := TokenBucket_init DEFAULT_RATE_LIMIT DEFAULT_BURST_SIZE now,
       stats := RateLimitStats_init DEFAULT_RATE_LIMIT,
       host_buckets := Map.empty,
       host_stats := Map.empty,
       consecutive_successes := 0\<rparr>"

text \<open>
  The calls a limiter receives during its lifetime, with their clock readings, and the
  limiter after each of them. The limiter object outlives an exception raised by a call.
\<close>

datatype limiter_call =
    Acquire "string option" real real real
  | OnResponse int "string option" real real
  | Reset real

fun limiter_step :: "AdaptiveRateLimiter \<Rightarrow> limiter_call \<Rightarrow> AdaptiveRateLimiter" where
  "limiter_step L (Acquire host t1 t2 t3) = snd (AdaptiveRateLimiter_acquire L host t1 t2 t3)"
| "limiter_step L (OnResponse status_code host tw1 tw2) = snd (on_response L status_code host tw1 tw2)"
| "limiter_step L (Reset now) = reset L now"

fun limiter_trace :: "AdaptiveRateLimiter \<Rightarrow> limiter_call list \<Rightarrow> AdaptiveRateLimiter list" where
  "limiter_trace L [] = []"
| "limiter_trace L (c # cs) = (let L' = limiter_step L c in L' # limiter_trace L' cs)"

fun is_reset :: "limiter_call \<Rightarrow> bool" where
  "is_reset (Reset now) = True"
| "is_reset call = False"

text \<open>A run of responses, each \<open>(status, host, tw1, tw2)\<close>; the result is the final limiter.\<close>

fun on_responses ::
  "AdaptiveRateLimiter \<Rightarrow> (int \<times> string option \<times> real \<times> real) list \<Rightarrow> AdaptiveRateLimiter" where
  "on_responses L [] = L"
| "on_responses L ((status_code, host, tw1, tw2) # rs) =
     on_responses (snd (on_response L status_code host tw1 tw2)) rs"


text \<open>Fifty responses that are not errors, for two hosts.\<close>

definition fifty_ok :: "(int \<times> string option \<times> real \<times> real) list" where
  "fifty_ok = replicate 25 (200, Some ''a.example'', 0, 0) @ replicate 25 (302, None, 0, 0)"

text \<open>
  A limiter that has seen thirty responses with status 200 and then one with status 500:
  the error has not reset the counter.
\<close>

definition stale_limiter :: AdaptiveRateLimiter where
  "stale_limiter =
     on_responses (AdaptiveRateLimiter_init 50 10 1 100 (1/2) (11/10) 0)
       (replicate 30 (200, None, 0, 0) @ [(500, None, 0, 0)])"

text \<open>
  The bounds on the rate as an invariant, with the conditions on the factors under which
  the two one-sided clamps of the source keep it.
\<close>

definition rate_inv :: "AdaptiveRateLimiter \<Rightarrow> bool" where
  "rate_inv L = (0 \<le> min_rate L \<and> min_rate L \<le> current_rate L \<and> current_rate L \<le> max_rate L
                 \<and> backoff_factor L \<le> 1 \<and> 1 \<le> recovery_factor L)"

definition same_params :: "AdaptiveRateLimiter \<Rightarrow> AdaptiveRateLimiter \<Rightarrow> bool" where
  "same_params L L' = (min_rate L' = min_rate L \<and> max_rate L' = max_rate L
                 \<and> backoff_factor L' = backoff_factor L \<and> recovery_factor L' = recovery_factor L)"

text \<open>A short life of a limiter, used to evaluate the bounds.\<close>

definition sample_calls :: "limiter_call list" where
  "sample_calls =
     [Acquire (Some ''a.example'') 0 0 0, OnResponse 429 (Some ''a.example'') 1 1,
      OnResponse 429 None 2 2, OnResponse 200 None 3 3, Reset 4, OnResponse 404 None 5 5]"

text \<open>
  A limiter after five probes to one host at the same instant: the host bucket, created
  with five tokens, is empty, and the global bucket still holds five.
\<close>

definition drained :: AdaptiveRateLimiter where
  "drained = foldl limiter_step (AdaptiveRateLimiter_init 50 10 1 100 (1/2) (11/10) 0)
               (replicate 5 (Acquire (Some ''a.example'') 0 0 0))"

section \<open>scripts/input\_validator.py\<close>

definition IP_ADDRESS_PATTERN :: string where
  "IP_ADDRESS_PATTERN =
     ''^(?:(?:25[0-5]|2[0-4][0-9]|[01]?[0-9][0-9]?)'' @ [CHR 0x5C] @ ''.){3}''
     @ ''(?:25[0-5]|2[0-4][0-9]|[01]?[0-9][0-9]?)$''"

text \<open>\<^verbatim>\<open>InputValidator.validate_proxy_url(proxy_url)\<close>.\<close>

definition validate_proxy_url :: "pylib \<Rightarrow> string \<Rightarrow> bool \<times> string" where
  "validate_proxy_url lib proxy_url =
     (if proxy_url = [] then (False, ''Proxy URL cannot be empty'')
      else
        (let u = strip proxy_url;
             valid_schemes = [''http://'', ''https://'', ''socks4://'', ''socks5://''];
             has_valid_scheme = list_ex (\<lambda>scheme. prefix scheme (lower u)) valid_schemes
         in if \<not> has_valid_scheme
            then (False, ''Proxy URL must start with one of: http://, https://, socks4://, socks5://'')
            else
              (case urlparse lib u of
                 Inl e \<Rightarrow> (False, ''Proxy URL parsing error: '' @ e)
               | Inr parsed \<Rightarrow>
                   (if pr_netloc parsed = [] then (False, ''Invalid proxy URL: missing host'')
                    else
                      (case pr_port parsed of
                         Inl e \<Rightarrow> (False, ''Proxy URL parsing error: '' @ e)
                       | Inr pp \<Rightarrow>
                           (if \<not> truthy (pr_hostname parsed)
                            then (False, ''Invalid proxy URL: missing host'')
                            else if \<not> re_match lib IP_ADDRESS_PATTERN (the (pr_hostname parsed))
                                    \<and> \<not> re_match lib ''^[a-zA-Z0-9.-]+$'' (the (pr_hostname parsed))
                            then (False, ''Invalid proxy hostname'')
                            else (True, u)))))))"

section \<open>scripts/proxy\_manager.py\<close>

record ProxyStats =
  total_requests :: int
  successful_requests :: int
  failed_requests :: int
  total_response_time :: real
  last_used :: real
  last_success :: real
  last_failure :: real
  consecutive_failures :: int
  is_healthy :: bool

definition ProxyStats_init :: ProxyStats where
  "ProxyStats_init =
     \<lparr>total_requests = 0, successful_requests = 0, failed_requests = 0,
      total_response_time = 0, last_used = 0, last_success = 0, last_failure = 0,
      consecutive_failures = 0, is_healthy = True\<rparr>"

definition success_rate :: "ProxyStats \<Rightarrow> real" where
  "success_rate s =
     (if total_requests s = 0 then 0
      else real_of_int (successful_requests s) / real_of_int (total_requests s))"

text \<open>\<^verbatim>\<open>avg_response_time\<close>; \<^verbatim>\<open>None\<close> stands for \<^verbatim>\<open>float('inf')\<close>.\<close>

definition avg_response_time :: "ProxyStats \<Rightarrow> real option" where
  "avg_response_time s =
     (if successful_requests s = 0 then None
      else Some (total_response_time s / real_of_int (successful_requests s)))"

record Proxy =
  url :: string
  type :: string
  host :: "string option"
  port :: int
  username :: "string option"
  password :: "string option"
  stats :: ProxyStats

text \<open>\<^verbatim>\<open>x or y\<close> for two optional strings.\<close>

definition or_else :: "string option \<Rightarrow> string option \<Rightarrow> string option" where
  "or_else x y = (if truthy x then x else y)"

text \<open>\<^verbatim>\<open>x or d\<close> for an optional port \<open>x\<close>: zero counts as false.\<close>

definition port_or :: "int option \<Rightarrow> int \<Rightarrow> int" where
  "port_or x d = (case x of None \<Rightarrow> d | Some n \<Rightarrow> if n = 0 then d else n)"

text \<open>\<^verbatim>\<open>Proxy.__post_init__\<close>; the result is the message of an exception it raises, or the proxy.\<close>

definition Proxy_post_init :: "pylib \<Rightarrow> Proxy \<Rightarrow> string + Proxy" where
  "Proxy_post_init lib p =
     (if \<not> truthy (host p) \<or> port p = 0 then
        (case urlparse lib (url p) of
           Inl e \<Rightarrow> Inl e
         | Inr parsed \<Rightarrow>
             (case pr_port parsed of
                Inl e \<Rightarrow> Inl e
              | Inr pp \<Rightarrow>
                  Inr (p\<lparr>host := or_else (pr_hostname parsed) (host p),
                         port := port_or pp (port p),
                         username := or_else (pr_username parsed) (username p),
                         password := or_else (pr_password parsed) (password p)\<rparr>)))
      else Inr p)"

text \<open>
  \<^verbatim>\<open>ProxyManager\<close>; \<open>proxies\<close> is the list \<^verbatim>\<open>_proxies\<close> and \<open>current_index\<close> is
  \<^verbatim>\<open>_current_index\<close>. A proxy handed out by the manager is an index into \<open>proxies\<close>.
\<close>

record ProxyManager =
  max_failures :: int
  health_check_interval :: real
  rotation_strategy :: string
  proxies :: "Proxy list"
  current_index :: int

definition ProxyManager_init :: "int \<Rightarrow> real \<Rightarrow> string \<Rightarrow> ProxyManager" where
  "ProxyManager_init mf interval strategy =
     \<lparr>max_failures = mf, health_check_interval = interval, rotation_strategy = strategy,
      proxies = [], current_index = 0\<rparr>"

text \<open>\<^verbatim>\<open>proxy in self._proxies\<close>: \<^verbatim>\<open>Proxy.__eq__\<close> compares the URLs.\<close>

definition proxy_in :: "Proxy \<Rightarrow> Proxy list \<Rightarrow> bool" where
  "proxy_in p ps = list_ex (\<lambda>q. url q = url p) ps"

text \<open>The proxy types that \<^verbatim>\<open>add_proxy\<close> supports.\<close>

definition supported_type :: "string \<Rightarrow> bool" where
  "supported_type proxy_type = (proxy_type \<in> set [''http'', ''https'', ''socks4'', ''socks5''])"

text \<open>
  The construction \<^verbatim>\<open>Proxy(url=..., type=..., host=..., port=..., ...)\<close> inside
  \<^verbatim>\<open>add_proxy\<close>: reading \<^verbatim>\<open>parsed.port\<close> or \<^verbatim>\<open>__post_init__\<close> may raise.
\<close>

definition build_proxy :: "pylib \<Rightarrow> string \<Rightarrow> string \<Rightarrow> ParseResult \<Rightarrow> string + Proxy" where
  "build_proxy lib proxy_url proxy_type parsed =
     (case pr_port parsed of
        Inl e \<Rightarrow> Inl e
      | Inr pp \<Rightarrow>
          Proxy_post_init lib
            \<lparr>url = proxy_url, type = proxy_type, host = pr_hostname parsed,
             port = port_or pp (if proxy_type = ''http'' then 80 else 1080),
             username = pr_username parsed, password = pr_password parsed,
             stats = ProxyStats_init\<rparr>)"

text \<open>
  \<^verbatim>\<open>ProxyManager.add_proxy(proxy_url)\<close>: the value returned, the manager, and the messages
  logged. Every exception raised inside is caught by the method.
\<close>

definition add_proxy :: "pylib \<Rightarrow> ProxyManager \<Rightarrow> string \<Rightarrow> bool \<times> ProxyManager \<times> log_entry list" where
  "add_proxy lib M proxy_url =
     (let checked = validate_proxy_url lib proxy_url;
          failed = (\<lambda>e. (False, M, [(LogError, ''Error adding proxy '' @ proxy_url @ '': '' @ e)]))
      in if \<not> fst checked then (False, M, [(LogWarning, ''Invalid proxy URL: '' @ snd checked)])
         else
           (case urlparse lib proxy_url of
              Inl e \<Rightarrow> failed e
            | Inr parsed \<Rightarrow>
                (let proxy_type = lower (pr_scheme parsed)
                 in if \<not> supported_type proxy_type
                    then (False, M, [(LogWarning, ''Unsupported proxy type: '' @ proxy_type)])
                    else
                      (case build_proxy lib proxy_url proxy_type parsed of
                         Inl e \<Rightarrow> failed e
                       | Inr proxy \<Rightarrow>
                           if \<not> proxy_in proxy (proxies M)
                           then (True, M\<lparr>proxies := proxies M @ [proxy]\<rparr>,
                                 [(LogInfo, ''Added proxy: '' @ str_opt (host proxy) @ '':''
                                      @ str_int (port proxy) @ '' ('' @ type proxy @ '')'')])
                           else (False, M, [])))))"

text \<open>
  What opening and reading a file gives: \<^verbatim>\<open>FileNotFoundError\<close>, another exception on
  opening (with its message), or the lines read and the message of the exception that
  ended the reading, if one did.
\<close>

datatype file_read =
    FileNotFound
  | OpenFailed string
  | FileLines "string list" "string option"

text \<open>The loop of \<^verbatim>\<open>load_from_file\<close> over the lines, with the count so far.\<close>

fun load_lines ::
  "pylib \<Rightarrow> ProxyManager \<Rightarrow> int \<Rightarrow> string list \<Rightarrow> int \<times> ProxyManager \<times> log_entry list" where
  "load_lines lib M n [] = (n, M, [])"
| "load_lines lib M n (line # rest) =
     (let l = strip line
      in if l \<noteq> [] \<and> \<not> prefix ''#'' l then
           (case add_proxy lib M l of
              (added, M', logged) \<Rightarrow>
                (case load_lines lib M' (if added then n + 1 else n) rest of
                   (n', M'', logged') \<Rightarrow> (n', M'', logged @ logged')))
         else load_lines lib M n rest)"

text \<open>\<^verbatim>\<open>ProxyManager.load_from_file(filepath)\<close>; \<open>fs\<close> is the file system.\<close>

definition load_from_file ::
  "pylib \<Rightarrow> (string \<Rightarrow> file_read) \<Rightarrow> ProxyManager \<Rightarrow> string \<Rightarrow> int \<times> ProxyManager \<times> log_entry list" where
  "load_from_file lib fs M filepath =
     (case fs filepath of
        FileNotFound \<Rightarrow> (0, M, [(LogWarning, ''Proxy file not found: '' @ filepath)])
      | OpenFailed e \<Rightarrow>
          (0, M, [(LogError, ''Error loading proxies from '' @ filepath @ '': '' @ e)])
      | FileLines lines failure \<Rightarrow>
          (case load_lines lib M 0 lines of
             (n, M', logged) \<Rightarrow>
               (n, M',
                logged @
                (case failure of
                   None \<Rightarrow> [(LogInfo, ''Loaded '' @ str_int n @ '' proxies from '' @ filepath)]
                 | Some e \<Rightarrow>
                     [(LogError, ''Error loading proxies from '' @ filepath @ '': '' @ e)]))))"

text \<open>\<^verbatim>\<open>record_success(proxy, response_time)\<close>; \<open>now\<close> is \<^verbatim>\<open>time.time()\<close>.\<close>

definition record_success :: "Proxy \<Rightarrow> real \<Rightarrow> real \<Rightarrow> Proxy" where
  "record_success proxy response_time now =
     proxy\<lparr>stats := (stats proxy)
       \<lparr>total_requests := total_requests (stats proxy) + 1,
        successful_requests := successful_requests (stats proxy) + 1,
        total_response_time := total_response_time (stats proxy) + response_time,
        last_success := now,
        consecutive_failures := 0,
        is_healthy := True\<rparr>\<rparr>"

text \<open>\<^verbatim>\<open>record_failure(proxy)\<close> of a manager with the given \<open>max_failures\<close>.\<close>

definition record_failure :: "ProxyManager \<Rightarrow> Proxy \<Rightarrow> real \<Rightarrow> Proxy \<times> log_entry list" where
  "record_failure M proxy now =
     (let s1 = (stats proxy)
            \<lparr>total_requests := total_requests (stats proxy) + 1,
             failed_requests := failed_requests (stats proxy) + 1,
             last_failure := now,
             consecutive_failures := consecutive_failures (stats proxy) + 1\<rparr>
      in if consecutive_failures s1 \<ge> max_failures M
         then (proxy\<lparr>stats := s1\<lparr>is_healthy := False\<rparr>\<rparr>,
               [(LogWarning, ''Proxy '' @ str_opt (host proxy) @ '':'' @ str_int (port proxy)
                   @ '' marked unhealthy after '' @ str_int (consecutive_failures s1)
                   @ '' consecutive failures'')])
         else (proxy\<lparr>stats := s1\<rparr>, []))"

text \<open>
  The recovery loop of \<^verbatim>\<open>get_proxy\<close>, run when no proxy is healthy: a proxy whose last
  failure is older than the interval is marked healthy again.
\<close>

definition reinstate :: "ProxyManager \<Rightarrow> real \<Rightarrow> Proxy \<Rightarrow> Proxy" where
  "reinstate M now proxy =
     (if now - last_failure (stats proxy) > health_check_interval M
      then proxy\<lparr>stats := (stats proxy)\<lparr>is_healthy := True, consecutive_failures := 0\<rparr>\<rparr>
      else proxy)"

text \<open>The key of the performance strategy, and Python's order on such pairs.\<close>

definition performance_key :: "Proxy \<Rightarrow> real \<times> real option" where
  "performance_key p = (- success_rate (stats p), avg_response_time (stats p))"

fun key_less :: "real \<times> real option \<Rightarrow> real \<times> real option \<Rightarrow> bool" where
  "key_less (a, x) (b, y) =
     (a < b \<or> (a = b \<and> (case (x, y) of
                             (Some u, Some v) \<Rightarrow> u < v
                           | (Some u, None) \<Rightarrow> True
                           | (None, y') \<Rightarrow> False)))"

text \<open>\<^verbatim>\<open>min(healthy_proxies, key=...)\<close> on a list of indices: the first minimal one.\<close>

fun min_by_key :: "Proxy list \<Rightarrow> nat \<Rightarrow> nat list \<Rightarrow> nat" where
  "min_by_key ps best [] = best"
| "min_by_key ps best (i # rest) =
     min_by_key ps (if key_less (performance_key (ps ! i)) (performance_key (ps ! best)) then i else best) rest"

text \<open>
  \<^verbatim>\<open>ProxyManager.get_proxy()\<close>. \<open>now\<close> is the clock of the recovery loop, \<open>choice\<close> the
  index drawn by \<^verbatim>\<open>random.choice\<close>, \<open>used\<close> the clock stored in \<^verbatim>\<open>last_used\<close>. The result is
  the index of the proxy returned, or \<^verbatim>\<open>None\<close>.
\<close>

definition get_proxy :: "ProxyManager \<Rightarrow> real \<Rightarrow> nat \<Rightarrow> real \<Rightarrow> nat option \<times> ProxyManager" where
  "get_proxy M now choice used =
     (let healthy = filter (\<lambda>i. is_healthy (stats (proxies M ! i))) [0..<length (proxies M)];
          M1 = (if healthy = [] then M\<lparr>proxies := map (reinstate M now) (proxies M)\<rparr> else M);
          healthy_proxies =
            (if healthy = []
             then filter (\<lambda>i. now - last_failure (stats (proxies M ! i)) > health_check_interval M)
                    [0..<length (proxies M)]
             else healthy)
      in if healthy_proxies = [] then (None, M1)
         else
           (let M2 = (if rotation_strategy M1 = ''random'' \<or> rotation_strategy M1 = ''performance''
                      then M1
                      else M1\<lparr>current_index :=
                               (current_index M1 + 1) mod int (length healthy_proxies)\<rparr>);
                i = (if rotation_strategy M1 = ''random''
                     then healthy_proxies ! (choice mod length healthy_proxies)
                     else if rotation_strategy M1 = ''performance''
                     then min_by_key (proxies M1) (hd healthy_proxies) (tl healthy_proxies)
                     else healthy_proxies ! nat (current_index M2))
            in (Some i,
                M2\<lparr>proxies := (proxies M2)
                     [i := (proxies M2 ! i)\<lparr>stats := (stats (proxies M2 ! i))\<lparr>last_used := used\<rparr>\<rparr>]\<rparr>)))"

text \<open>
  What happens to one proxy: requests that succeed or fail, with their clock readings.
  The trace lists the proxy after each of them.
\<close>

datatype proxy_event = Succeeded real real | Failed real

fun proxy_step :: "ProxyManager \<Rightarrow> Proxy \<Rightarrow> proxy_event \<Rightarrow> Proxy" where
  "proxy_step M p (Succeeded response_time now) = record_success p response_time now"
| "proxy_step M p (Failed now) = fst (record_failure M p now)"

fun proxy_trace :: "ProxyManager \<Rightarrow> Proxy \<Rightarrow> proxy_event list \<Rightarrow> Proxy list" where
  "proxy_trace M p [] = []"
| "proxy_trace M p (e # es) = (let p' = proxy_step M p e in p' # proxy_trace M p' es)"

fun is_failure :: "proxy_event \<Rightarrow> bool" where
  "is_failure (Failed now) = True"
| "is_failure e = False"

text \<open>The number of failures at the end of a run of events, since the last success.\<close>

definition trailing_failures :: "proxy_event list \<Rightarrow> int" where
  "trailing_failures es = int (length (takeWhile is_failure (rev es)))"

text \<open>The index that \<^verbatim>\<open>get_proxy\<close> selects among the candidates \<open>hp\<close>.\<close>

definition selected :: "ProxyManager \<Rightarrow> nat list \<Rightarrow> nat \<Rightarrow> nat" where
  "selected M hp choice =
     (if rotation_strategy M = ''random'' then hp ! (choice mod length hp)
      else if rotation_strategy M = ''performance'' then min_by_key (proxies M) (hd hp) (tl hp)
      else hp ! nat ((current_index M + 1) mod int (length hp)))"

text \<open>
  A proxy as \<^verbatim>\<open>add_proxy\<close> creates it, the same proxy after three failures in a row at
  times 1, 2 and 3, and a manager (three failures allowed, interval 300) holding only it.
\<close>

definition sample_proxy :: Proxy where
  "sample_proxy =
     \<lparr>url = ''http://10.0.0.1:8080'', type = ''http'', host = Some ''10.0.0.1'', port = 8080,
      username = None, password = None, stats = ProxyStats_init\<rparr>"

definition down_proxy :: Proxy where
  "down_proxy = foldl (proxy_step (ProxyManager_init 3 300 ''round_robin'')) sample_proxy
                  [Failed 1, Failed 2, Failed 3]"

definition down_pool :: ProxyManager where
  "down_pool = (ProxyManager_init 3 300 ''round_robin'')\<lparr>proxies := [down_proxy]\<rparr>"

text \<open>A line of a proxy file that \<^verbatim>\<open>load_from_file\<close> passes to \<^verbatim>\<open>add_proxy\<close>.\<close>

definition is_entry :: "string \<Rightarrow> bool" where
  "is_entry line = (strip line \<noteq> [] \<and> \<not> prefix ''#'' (strip line))"

text \<open>
  The values of \<^verbatim>\<open>urlparse\<close> and of the two regular expressions of the validator on the
  URLs of the examples below; \<^verbatim>\<open>urlparse\<close> itself accepts many more URLs.
\<close>

definition sample_urlparse :: "string \<Rightarrow> string + ParseResult" where
  "sample_urlparse u =
     (if u = ''http://10.0.0.1:8080'' then
        Inr \<lparr>pr_scheme = ''http'', pr_netloc = ''10.0.0.1:8080'', pr_hostname = Some ''10.0.0.1'',
             pr_port = Inr (Some 8080), pr_username = None, pr_password = None\<rparr>
      else if u = ''socks5://proxy.example'' then
        Inr \<lparr>pr_scheme = ''socks5'', pr_netloc = ''proxy.example'', pr_hostname = Some ''proxy.example'',
             pr_port = Inr None, pr_username = None, pr_password = None\<rparr>
      else if u = ''http://10.0.0.1:99999'' then
        Inr \<lparr>pr_scheme = ''http'', pr_netloc = ''10.0.0.1:99999'', pr_hostname = Some ''10.0.0.1'',
             pr_port = Inl ''Port out of range 0-65535'', pr_username = None, pr_password = None\<rparr>
      else Inl ''not one of the sample URLs'')"

definition sample_lib :: pylib where
  "sample_lib =
     \<lparr>urlparse = sample_urlparse,
      re_match = (\<lambda>pattern s. s = ''10.0.0.1'' \<or> (pattern = ''^[a-zA-Z0-9.-]+$'' \<and> s = ''proxy.example'')),
      re_search_i = (\<lambda>pattern s. False),
      re_findall_i = (\<lambda>pattern s. []),
      json_loads = (\<lambda>s. None),
      dict_str = (\<lambda>d. ''{}'')\<rparr>"

text \<open>A proxy file of six lines, and a file system that holds only it.\<close>

definition sample_file :: "string list" where
  "sample_file =
     [''# proxies'' @ [CHR 0x0A],
      [CHR 0x0A],
      ''http://10.0.0.1:8080'' @ [CHR 0x0A],
      ''  ftp://files.example'' @ [CHR 0x0A],
      ''http://10.0.0.1:8080'' @ [CHR 0x0A],
      ''socks5://proxy.example'' @ [CHR 0x0A]]"

definition sample_fs :: "string \<Rightarrow> file_read" where
  "sample_fs path = (if path = ''config/proxies.txt'' then FileLines sample_file None else FileNotFound)"

text \<open>The proxy that \<^verbatim>\<open>add_proxy\<close> builds from the second sample URL.\<close>

definition socks_proxy :: Proxy where
  "socks_proxy =
     \<lparr>url = ''socks5://proxy.example'', type = ''socks5'', host = Some ''proxy.example'', port = 1080,
      username = None, password = None, stats = ProxyStats_init\<rparr>"

section \<open>finder.py\<close>

text \<open>
  The keyword test of the stealth mode of \<^verbatim>\<open>scan_target\<close>:
  \<^verbatim>\<open>any(keyword in p.lower() for keyword in admin_keywords)\<close>.
\<close>

definition admin_keywords :: "string list" where
  "admin_keywords = [''admin'', ''administrator'', ''dashboard'', ''panel'', ''control'', ''login'', ''cp'']"

definition has_admin_keyword :: "string \<Rightarrow> bool" where
  "has_admin_keyword p = list_ex (\<lambda>keyword. sublist keyword (lower p)) admin_keywords"

text \<open>
  The shaping of the path list in \<^verbatim>\<open>scan_target\<close>, by detection mode. The list
  \<^verbatim>\<open>list(set(paths) - set(prioritized_paths))\<close> comes in an order that Python does not
  fix and is then shuffled by \<^verbatim>\<open>random.shuffle\<close>: \<open>shuffle\<close> stands for both, and is
  applied to the elements of the set in the order of their first occurrence.
\<close>

definition scan_target_paths :: "(string list \<Rightarrow> string list) \<Rightarrow> string \<Rightarrow> string list \<Rightarrow> string list" where
  "scan_target_paths shuffle detection_mode paths =
     (if detection_mode = ''simple'' \<and> length paths > 1000 then take 1000 paths
      else if detection_mode = ''stealth'' \<and> length paths > 500 then
        (let prioritized_paths = filter has_admin_keyword paths;
             random_paths = shuffle (remdups (filter (\<lambda>p. p \<notin> set prioritized_paths) paths));
             selected_random = (if random_paths \<noteq> [] then take 200 random_paths else [])
         in take 300 prioritized_paths @ selected_random)
      else paths)"

text \<open>
  Six hundred distinct candidate paths, fifty of which contain a keyword: \<^verbatim>\<open>admin\<close>,
  \<^verbatim>\<open>adminx\<close>, \<^verbatim>\<open>adminxx\<close>, ... and \<^verbatim>\<open>x\<close>, \<^verbatim>\<open>xx\<close>, ...
\<close>

definition admin_padded :: "nat \<Rightarrow> string" where
  "admin_padded n = ''admin'' @ replicate n (CHR ''x'')"

definition x_padded :: "nat \<Rightarrow> string" where
  "x_padded n = replicate (Suc n) (CHR ''x'')"

definition six_hundred_paths :: "string list" where
  "six_hundred_paths = map admin_padded [0..<50] @ map x_padded [0..<550]"

text \<open>Six hundred candidate paths with only two distinct strings among them.\<close>

definition duplicated_paths :: "string list" where
  "duplicated_paths = replicate 50 ''admin'' @ replicate 550 ''x''"

section \<open>scripts/path\_fuzzer.py\<close>

definition FUZZING_EXTENSIONS :: "string list" where
  "FUZZING_EXTENSIONS =
     [''.php'', ''.asp'', ''.aspx'', ''.jsp'', ''.cfm'', ''.html'', ''.htm'', ''.shtml'', ''.py'', ''.rb'']"

definition BACKUP_EXTENSIONS :: "string list" where
  "BACKUP_EXTENSIONS =
     [''.bak'', ''.old'', ''.backup'', ''.orig'', ''.save'', ''.tmp'', ''.temp'', ''.swp'', ''~'', ''.copy'']"

text \<open>
  More string methods: \<^verbatim>\<open>s.split(c)\<close> and \<^verbatim>\<open>s.replace(c, new)\<close> for a single character
  \<open>c\<close>, \<^verbatim>\<open>sep.join(parts)\<close>, \<^verbatim>\<open>s.capitalize()\<close>, and the slice \<^verbatim>\<open>xs[:n]\<close> for an
  integer \<open>n\<close>, which counts from the end when \<open>n\<close> is negative.
\<close>

fun split_on :: "char \<Rightarrow> string \<Rightarrow> string list" where
  "split_on c [] = [[]]"
| "split_on c (x # xs) =
     (if x = c then [] # split_on c xs
      else (case split_on c xs of
              [] \<Rightarrow> [[x]]
            | w # ws \<Rightarrow> (x # w) # ws))"

fun join :: "string \<Rightarrow> string list \<Rightarrow> string" where
  "join sep [] = []"
| "join sep [w] = w"
| "join sep (w # ws) = w @ sep @ join sep ws"

definition replace_char :: "char \<Rightarrow> string \<Rightarrow> string \<Rightarrow> string" where
  "replace_char c new s = concat (map (\<lambda>x. if x = c then new else [x]) s)"

definition capitalize :: "string \<Rightarrow> string" where
  "capitalize w = (case w of [] \<Rightarrow> [] | c # cs \<Rightarrow> upper_char c # lower cs)"

definition slice_to :: "int \<Rightarrow> 'a list \<Rightarrow> 'a list" where
  "slice_to n xs = (if 0 \<le> n then take (nat n) xs else take (length xs - nat (- n)) xs)"

text \<open>\<^verbatim>\<open>basename.rsplit('.', 1)\<close> for a basename that contains a dot.\<close>

definition rsplit_dot :: "string \<Rightarrow> string \<times> string" where
  "rsplit_dot basename =
     (rev (tl (dropWhile (\<lambda>c. c \<noteq> CHR ''.'') (rev basename))),
      rev (takeWhile (\<lambda>c. c \<noteq> CHR ''.'') (rev basename)))"

record PathFuzzer =
  depth :: int
  include_extensions :: bool
  include_backups :: bool
  include_case_variations :: bool
  include_separator_variations :: bool
  max_variations_per_path :: int
  extensions :: "string list"
  backup_extensions :: "string list"

text \<open>
  \<^verbatim>\<open>PathFuzzer.__init__\<close>; the defaults of the source are depth 1, every axis enabled and
  50 variations per path.
\<close>

definition PathFuzzer_init :: "int \<Rightarrow> bool \<Rightarrow> bool \<Rightarrow> bool \<Rightarrow> bool \<Rightarrow> int \<Rightarrow> PathFuzzer" where
  "PathFuzzer_init d ext bak cases seps mx =
     (let d' = max 1 (min d 3)
      in \<lparr>depth = d',
          include_extensions = ext,
          include_backups = bak,
          include_case_variations = cases,
          include_separator_variations = seps,
          max_variations_per_path = mx,
          extensions =
            (if d' = 1 then [''.php'', ''.html'', ''.asp'']
             else if d' = 2 then [''.php'', ''.html'', ''.asp'', ''.aspx'', ''.jsp'', ''.htm'']
             else FUZZING_EXTENSIONS),
          backup_extensions =
            (if d' = 1 then [''.bak'', ''.old'']
             else if d' = 2 then [''.bak'', ''.old'', ''.backup'', ''.orig'']
             else BACKUP_EXTENSIONS)\<rparr>)"

definition to_camel_case :: "string \<Rightarrow> string" where
  "to_camel_case s = concat (map capitalize (split_on (CHR ''_'') (replace_char (CHR ''-'') ''_'' s)))"

definition to_title_case :: "string \<Rightarrow> string" where
  "to_title_case s = join ''_'' (map capitalize (split_on (CHR ''_'') (replace_char (CHR ''-'') ''_'' s)))"

text \<open>
  The strings that \<^verbatim>\<open>fuzz_path\<close> adds to its set \<^verbatim>\<open>variations\<close>, in the order in which it
  adds them (with repetitions).
\<close>

definition variations :: "PathFuzzer \<Rightarrow> string \<Rightarrow> string list" where
  "variations fz path0 =
     (let path = strip_chars ''/'' path0;
          parts = split_on (CHR ''/'') path;
          basename = (if parts \<noteq> [] then last parts else path);
          name = (if CHR ''.'' \<in> set basename then fst (rsplit_dot basename) else basename);
          original_ext = (if CHR ''.'' \<in> set basename then CHR ''.'' # snd (rsplit_dot basename) else []);
          dir = (if length parts > 1 then join ''/'' (butlast parts) @ ''/'' else [])
      in [path0]
         @ (if include_extensions fz
            then concat (map (\<lambda>ext. [dir @ name @ ext, dir @ name]) (extensions fz))
            else [])
         @ (if include_backups fz
            then concat (map (\<lambda>backup_ext.
                   [path @ backup_ext]
                   @ (if original_ext \<noteq> []
                      then (let base_path = slice_to (- int (length original_ext)) path
                            in [base_path @ backup_ext, base_path @ backup_ext @ original_ext])
                      else []))
                 (backup_extensions fz))
            else [])
         @ (if include_case_variations fz
            then [lower path, upper path, to_camel_case path, to_title_case path]
            else [])
         @ (if include_separator_variations fz
            then [replace_char (CHR ''_'') ''-'' path,
                  replace_char (CHR ''-'') ''_'' path,
                  replace_char (CHR ''-'') [] (replace_char (CHR ''_'') [] path)]
            else []))"

text \<open>
  \<^verbatim>\<open>PathFuzzer.fuzz_path(path)\<close>: \<^verbatim>\<open>list(variations)[:max_variations_per_path]\<close>. Python
  does not fix the order in which a set is listed; \<open>listing\<close> stands for it, applied to the
  distinct strings in the order of their last addition.
\<close>

definition fuzz_path :: "(string list \<Rightarrow> string list) \<Rightarrow> PathFuzzer \<Rightarrow> string \<Rightarrow> string list" where
  "fuzz_path listing fz path =
     slice_to (max_variations_per_path fz) (listing (remdups (variations fz path)))"

text \<open>\<^verbatim>\<open>PathFuzzer()\<close>, every argument at its default.\<close>

definition default_fuzzer :: PathFuzzer where
  "default_fuzzer = PathFuzzer_init 1 True True True True 50"

definition nested_path :: string where
  "nested_path = ''/wp-admin/user_list.old.php/''"

section \<open>Token bucket bounds\<close>

lemma TokenBucket_init_ok: "0 \<le> c \<Longrightarrow> bucket_ok (TokenBucket_init r c now)"
  by (simp add: bucket_ok_def TokenBucket_init_def RATE_LIMIT_MIN_def RATE_LIMIT_MAX_def)

lemma TokenBucket_acquire_ok:
  assumes "bucket_ok b" and "last_update b \<le> now" and "0 \<le> n"
  shows "bucket_ok (snd (TokenBucket_acquire b n now))"
proof -
  define refilled where
    "refilled = min (real_of_int (capacity b)) (tokens b + (now - last_update b) * rate b)"
  have "0 \<le> (now - last_update b) * rate b"
    using assms by (simp add: bucket_ok_def)
  then have lo: "0 \<le> refilled"
    using assms by (simp add: bucket_ok_def refilled_def)
  have hi: "refilled \<le> real_of_int (capacity b)"
    by (simp add: refilled_def)
  have n: "0 \<le> real_of_int n"
    using assms by simp
  have "TokenBucket_acquire b n now =
      (if real_of_int n \<le> refilled
       then (True, b\<lparr>tokens := refilled - real_of_int n, last_update := now\<rparr>)
       else (False, b\<lparr>tokens := refilled, last_update := now\<rparr>))"
    by (simp add: TokenBucket_acquire_def Let_def refilled_def)
  then show ?thesis
    using lo hi n assms(1) by (simp add: bucket_ok_def)
qed

lemma TokenBucket_acquire_last_update:
  "last_update (snd (TokenBucket_acquire b n now)) = now"
  by (simp add: TokenBucket_acquire_def Let_def)

lemma acquire_trace_ok:
  "bucket_ok b \<Longrightarrow> monotonic_from (last_update b) (map snd calls) \<Longrightarrow>
   \<forall>c \<in> set calls. 0 \<le> fst c \<Longrightarrow>
   \<forall>b' \<in> set (acquire_trace b calls). bucket_ok b'"
proof (induction calls arbitrary: b)
  case Nil
  then show ?case by simp
next
  case (Cons c calls)
  obtain n now where c: "c = (n, now)" by (cases c)
  let ?b = "snd (TokenBucket_acquire b n now)"
  have step: "bucket_ok ?b"
    using Cons.prems c by (intro TokenBucket_acquire_ok) auto
  have "monotonic_from (last_update ?b) (map snd calls)"
    using Cons.prems c by (simp add: TokenBucket_acquire_last_update)
  then have "\<forall>b' \<in> set (acquire_trace ?b calls). bucket_ok b'"
    using Cons.IH [OF step] Cons.prems(3) by simp
  then show ?case
    using step c by (simp add: Let_def)
qed

text \<open>
  C1 (as amended). A bucket built by \<^verbatim>\<open>TokenBucket(rate, capacity)\<close> with a capacity that
  is not negative satisfies \<open>0 \<le> tokens \<le> capacity\<close> after every call of any sequence of
  \<^verbatim>\<open>acquire\<close> calls whose token counts are not negative, under a monotonic clock.
\<close>

theorem token_bucket_bounds:
  assumes "0 \<le> c"
    and "monotonic_from t0 (map snd calls)"
    and "\<forall>call \<in> set calls. 0 \<le> fst call"
  shows "\<forall>b \<in> set (acquire_trace (TokenBucket_init r c t0) calls).
           0 \<le> tokens b \<and> tokens b \<le> real_of_int (capacity b)"
proof -
  have "last_update (TokenBucket_init r c t0) = t0"
    by (simp add: TokenBucket_init_def)
  then have "\<forall>b \<in> set (acquire_trace (TokenBucket_init r c t0) calls). bucket_ok b"
    using assms by (intro acquire_trace_ok TokenBucket_init_ok) simp_all
  then show ?thesis by (simp add: bucket_ok_def)
qed

theorem token_bucket_bounds_witness:
  "map tokens (acquire_trace (TokenBucket_init 2 3 0) [(1, 0), (2, 0), (1, 0), (1, 1/2), (0, 5)])
     = [2, 0, 0, 0, 3]
   \<and> list_all (\<lambda>b. 0 \<le> tokens b \<and> tokens b \<le> real_of_int (capacity b))
        (acquire_trace (TokenBucket_init 2 3 0) [(1, 0), (2, 0), (1, 0), (1, 1/2), (0, 5)])"
proof -
  have "list_all (\<lambda>b. 0 \<le> tokens b \<and> tokens b \<le> real_of_int (capacity b))
          (acquire_trace (TokenBucket_init 2 3 0) [(1, 0), (2, 0), (1, 0), (1, 1/2), (0, 5)])"
    using token_bucket_bounds [of 3 0 "[(1, 0), (2, 0), (1, 0), (1, 1/2), (0, 5)]" 2]
    by (simp add: list_all_iff)
  moreover have "map tokens
      (acquire_trace (TokenBucket_init 2 3 0) [(1, 0), (2, 0), (1, 0), (1, 1/2), (0, 5)])
        = [2, 0, 0, 0, 3]"
    by code_simp
  ultimately show ?thesis by blast
qed

text \<open>
  C1 as stated fails for a negative token count: \<^verbatim>\<open>TokenBucket(1, 10).acquire(-5)\<close> with no
  time elapsed leaves 15 tokens in a bucket of capacity 10.
\<close>

theorem token_bucket_negative_count_counterexample:
  "tokens (snd (TokenBucket_acquire (TokenBucket_init 1 10 0) (-5) 0)) = 15
   \<and> capacity (snd (TokenBucket_acquire (TokenBucket_init 1 10 0) (-5) 0)) = 10
   \<and> \<not> (tokens (snd (TokenBucket_acquire (TokenBucket_init 1 10 0) (-5) 0))
          \<le> real_of_int (capacity (snd (TokenBucket_acquire (TokenBucket_init 1 10 0) (-5) 0))))"
  by (simp add: TokenBucket_init_def TokenBucket_acquire_def Let_def
      RATE_LIMIT_MIN_def RATE_LIMIT_MAX_def)

section \<open>Backoff and recovery of the adaptive limiter\<close>

lemma handle_rate_limit_hit_rate:
  "current_rate (snd (handle_rate_limit_hit L hst tw1 tw2)) = max (min_rate L) (current_rate L * backoff_factor L)"
  by (simp add: handle_rate_limit_hit_def Let_def split: option.split)

lemma handle_rate_limit_hit_successes:
  "consecutive_successes (snd (handle_rate_limit_hit L hst tw1 tw2)) = 0"
  by (simp add: handle_rate_limit_hit_def Let_def split: option.split)

lemma handle_rate_limit_hit_params:
  "min_rate (snd (handle_rate_limit_hit L hst tw1 tw2)) = min_rate L"
  "max_rate (snd (handle_rate_limit_hit L hst tw1 tw2)) = max_rate L"
  "backoff_factor (snd (handle_rate_limit_hit L hst tw1 tw2)) = backoff_factor L"
  "recovery_factor (snd (handle_rate_limit_hit L hst tw1 tw2)) = recovery_factor L"
  "success_threshold (snd (handle_rate_limit_hit L hst tw1 tw2)) = success_threshold L"
  by (simp_all add: handle_rate_limit_hit_def Let_def split: option.split)

lemma handle_success_below:
  "consecutive_successes L + 1 < success_threshold L \<Longrightarrow>
   handle_success L hst = L\<lparr>consecutive_successes := consecutive_successes L + 1\<rparr>"
  by (simp add: handle_success_def Let_def)

lemma handle_success_reached_rate:
  "success_threshold L \<le> consecutive_successes L + 1 \<Longrightarrow>
   current_rate (handle_success L hst) = min (max_rate L) (current_rate L * recovery_factor L)"
  by (simp add: handle_success_def Let_def)

lemma handle_success_reached_successes:
  "success_threshold L \<le> consecutive_successes L + 1 \<Longrightarrow>
   consecutive_successes (handle_success L hst) = 0"
  by (simp add: handle_success_def Let_def)

lemma handle_success_params:
  "min_rate (handle_success L hst) = min_rate L"
  "max_rate (handle_success L hst) = max_rate L"
  "backoff_factor (handle_success L hst) = backoff_factor L"
  "recovery_factor (handle_success L hst) = recovery_factor L"
  "success_threshold (handle_success L hst) = success_threshold L"
  by (simp_all add: handle_success_def Let_def)

lemma on_response_success:
  "200 \<le> s \<Longrightarrow> s < 400 \<Longrightarrow> on_response L s hst tw1 tw2 = (None, handle_success L hst)"
  by (simp add: on_response_def HTTP_TOO_MANY_REQUESTS_def)

lemma on_responses_below:
  "\<forall>r \<in> set rs. 200 \<le> fst r \<and> fst r < 400 \<Longrightarrow>
   consecutive_successes L + int (length rs) < success_threshold L \<Longrightarrow>
   on_responses L rs = L\<lparr>consecutive_successes := consecutive_successes L + int (length rs)\<rparr>"
proof (induction rs arbitrary: L)
  case Nil
  then show ?case by simp
next
  case (Cons r rs)
  obtain s hst tw1 tw2 where r: "r = (s, hst, tw1, tw2)" by (cases r)
  have ok: "200 \<le> s" "s < 400" using Cons.prems(1) r by auto
  have step: "handle_success L hst = L\<lparr>consecutive_successes := consecutive_successes L + 1\<rparr>"
    using Cons.prems(2) by (intro handle_success_below) simp
  have "on_responses (L\<lparr>consecutive_successes := consecutive_successes L + 1\<rparr>) rs
      = (L\<lparr>consecutive_successes := consecutive_successes L + 1\<rparr>)
          \<lparr>consecutive_successes :=
             consecutive_successes (L\<lparr>consecutive_successes := consecutive_successes L + 1\<rparr>)
               + int (length rs)\<rparr>"
    using Cons.prems by (intro Cons.IH) simp_all
  then show ?case
    using r ok step by (simp add: on_response_success add.assoc)
qed

lemma on_responses_append:
  "on_responses L (rs @ rs') = on_responses (on_responses L rs) rs'"
  by (induction rs arbitrary: L) auto

lemma on_response_other:
  "s \<noteq> 429 \<Longrightarrow> \<not> (200 \<le> s \<and> s < 400) \<Longrightarrow> on_response L s hst tw1 tw2 = (None, L)"
  by (auto simp: on_response_def HTTP_TOO_MANY_REQUESTS_def)

lemma on_responses_last:
  assumes "consecutive_successes L < success_threshold L"
    and "int (length rs) = success_threshold L - consecutive_successes L"
    and "\<forall>r \<in> set rs. 200 \<le> fst r \<and> fst r < 400"
  shows "\<exists>hst. on_responses L rs
           = handle_success (L\<lparr>consecutive_successes := success_threshold L - 1\<rparr>) hst"
proof -
  have ne: "rs \<noteq> []" using assms(1,2) by auto
  then have split: "rs = butlast rs @ [last rs]" by simp
  obtain s hst tw1 tw2 where r: "last rs = (s, hst, tw1, tw2)" by (cases "last rs")
  have "(s, hst, tw1, tw2) \<in> set rs" using ne r by (metis last_in_set)
  then have ok: "200 \<le> s" "s < 400" using assms(3) by auto
  have len: "int (length (butlast rs)) = success_threshold L - consecutive_successes L - 1"
    using assms(2) ne by (simp add: of_nat_diff Suc_leI)
  have "\<forall>r \<in> set (butlast rs). 200 \<le> fst r \<and> fst r < 400"
    using assms(3) by (auto dest: in_set_butlastD)
  moreover have "consecutive_successes L + int (length (butlast rs)) < success_threshold L"
    using len by simp
  ultimately have "on_responses L (butlast rs)
      = L\<lparr>consecutive_successes := consecutive_successes L + int (length (butlast rs))\<rparr>"
    by (rule on_responses_below)
  then have pre: "on_responses L (butlast rs) = L\<lparr>consecutive_successes := success_threshold L - 1\<rparr>"
    using len by simp
  have "on_responses L rs = on_responses (on_responses L (butlast rs)) [last rs]"
    using split on_responses_append by metis
  then have "on_responses L rs
      = handle_success (L\<lparr>consecutive_successes := success_threshold L - 1\<rparr>) hst"
    using pre r ok by (simp add: on_response_success)
  then show ?thesis by blast
qed

lemma on_responses_recovery:
  assumes "consecutive_successes L < success_threshold L"
    and "int (length rs) = success_threshold L - consecutive_successes L"
    and "\<forall>r \<in> set rs. 200 \<le> fst r \<and> fst r < 400"
  shows "current_rate (on_responses L rs) = min (max_rate L) (current_rate L * recovery_factor L)"
    and "consecutive_successes (on_responses L rs) = 0"
    and "success_threshold (on_responses L rs) = success_threshold L"
proof -
  obtain h where last: "on_responses L rs
      = handle_success (L\<lparr>consecutive_successes := success_threshold L - 1\<rparr>) h"
    using on_responses_last [OF assms] by blast
  show "current_rate (on_responses L rs) = min (max_rate L) (current_rate L * recovery_factor L)"
    by (simp add: last handle_success_reached_rate)
  show "consecutive_successes (on_responses L rs) = 0"
    by (simp add: last handle_success_reached_successes)
  show "success_threshold (on_responses L rs) = success_threshold L"
    by (simp add: last handle_success_params)
qed

lemma on_responses_before:
  assumes "k < length rs"
    and "int (length rs) = success_threshold L - consecutive_successes L"
    and "\<forall>r \<in> set rs. 200 \<le> fst r \<and> fst r < 400"
  shows "on_responses L (take k rs) = L\<lparr>consecutive_successes := consecutive_successes L + int k\<rparr>"
proof -
  have "\<forall>r \<in> set (take k rs). 200 \<le> fst r \<and> fst r < 400"
    using assms(3) by (auto dest: in_set_takeD)
  moreover have "consecutive_successes L + int (length (take k rs)) < success_threshold L"
    using assms(1,2) by simp
  ultimately have "on_responses L (take k rs)
      = L\<lparr>consecutive_successes := consecutive_successes L + int (length (take k rs))\<rparr>"
    by (rule on_responses_below)
  then show ?thesis using assms(1) by simp
qed

lemma stale_limiter_state:
  "stale_limiter = (AdaptiveRateLimiter_init 50 10 1 100 (1/2) (11/10) 0)\<lparr>consecutive_successes := 30\<rparr>"
proof -
  let ?L = "AdaptiveRateLimiter_init 50 10 1 100 (1/2) (11/10) 0"
  have "on_responses ?L (replicate 30 (200, None, 0, 0))
      = ?L\<lparr>consecutive_successes := consecutive_successes ?L + int (length (replicate 30 (200::int, None::string option, 0::real, 0::real)))\<rparr>"
    by (rule on_responses_below) (simp_all add: AdaptiveRateLimiter_init_def)
  then have "on_responses ?L (replicate 30 (200, None, 0, 0)) = ?L\<lparr>consecutive_successes := 30\<rparr>"
    by (simp add: AdaptiveRateLimiter_init_def)
  then show ?thesis
    by (simp add: stale_limiter_def on_responses_append on_response_other)
qed

text \<open>
  C2 (as amended). Whatever the state of the limiter, a 429 response sets \<open>current_rate\<close>
  to \<open>max min_rate (current_rate * backoff_factor)\<close> and the counter to zero. A response with
  status in 200..399 adds one to the counter; the response that brings the counter to the
  threshold (50) sets the rate to \<open>min max_rate (current_rate * recovery_factor)\<close> and the
  counter to zero, and no earlier one changes the rate. A response with any other status
  changes neither the rate nor the counter. So from a counter \<open>c\<close> below the threshold the
  rate is raised by exactly the \<open>(50 - c)\<close>-th response with status in 200..399: the
  fiftieth when the counter is zero.
\<close>

theorem rate_limit_backoff_and_recovery:
  "current_rate (snd (on_response L 429 hst tw1 tw2))
      = max (min_rate L) (current_rate L * backoff_factor L)
   \<and> consecutive_successes (snd (on_response L 429 hst tw1 tw2)) = 0
   \<and> (200 \<le> s \<and> s < 400 \<longrightarrow>
        (if success_threshold L \<le> consecutive_successes L + 1
         then current_rate (snd (on_response L s hst tw1 tw2))
                = min (max_rate L) (current_rate L * recovery_factor L)
              \<and> consecutive_successes (snd (on_response L s hst tw1 tw2)) = 0
         else current_rate (snd (on_response L s hst tw1 tw2)) = current_rate L
              \<and> consecutive_successes (snd (on_response L s hst tw1 tw2))
                   = consecutive_successes L + 1))
   \<and> (s \<noteq> 429 \<and> \<not> (200 \<le> s \<and> s < 400) \<longrightarrow> snd (on_response L s hst tw1 tw2) = L)
   \<and> (consecutive_successes L < success_threshold L
        \<and> int (length rs) = success_threshold L - consecutive_successes L
        \<and> (\<forall>r \<in> set rs. 200 \<le> fst r \<and> fst r < 400)
      \<longrightarrow> current_rate (on_responses L rs) = min (max_rate L) (current_rate L * recovery_factor L)
          \<and> consecutive_successes (on_responses L rs) = 0
          \<and> (\<forall>k < length rs.
                current_rate (on_responses L (take k rs)) = current_rate L
                \<and> consecutive_successes (on_responses L (take k rs))
                     = consecutive_successes L + int k))"
proof (intro conjI impI)
  show "current_rate (snd (on_response L 429 hst tw1 tw2))
      = max (min_rate L) (current_rate L * backoff_factor L)"
    by (simp add: on_response_def HTTP_TOO_MANY_REQUESTS_def handle_rate_limit_hit_rate)
  show "consecutive_successes (snd (on_response L 429 hst tw1 tw2)) = 0"
    by (simp add: on_response_def HTTP_TOO_MANY_REQUESTS_def handle_rate_limit_hit_successes)
next
  assume "200 \<le> s \<and> s < 400"
  then have step: "snd (on_response L s hst tw1 tw2) = handle_success L hst"
    by (simp add: on_response_success)
  show "if success_threshold L \<le> consecutive_successes L + 1
         then current_rate (snd (on_response L s hst tw1 tw2))
                = min (max_rate L) (current_rate L * recovery_factor L)
              \<and> consecutive_successes (snd (on_response L s hst tw1 tw2)) = 0
         else current_rate (snd (on_response L s hst tw1 tw2)) = current_rate L
              \<and> consecutive_successes (snd (on_response L s hst tw1 tw2))
                   = consecutive_successes L + 1"
  proof (cases "success_threshold L \<le> consecutive_successes L + 1")
    case True
    then show ?thesis
      by (simp add: step handle_success_reached_rate handle_success_reached_successes)
  next
    case False
    then have "handle_success L hst = L\<lparr>consecutive_successes := consecutive_successes L + 1\<rparr>"
      by (intro handle_success_below) simp
    then show ?thesis using False by (simp add: step)
  qed
next
  assume "s \<noteq> 429 \<and> \<not> (200 \<le> s \<and> s < 400)"
  then show "snd (on_response L s hst tw1 tw2) = L"
    by (simp add: on_response_other)
next
  assume a: "consecutive_successes L < success_threshold L
        \<and> int (length rs) = success_threshold L - consecutive_successes L
        \<and> (\<forall>r \<in> set rs. 200 \<le> fst r \<and> fst r < 400)"
  show "current_rate (on_responses L rs) = min (max_rate L) (current_rate L * recovery_factor L)"
    using a by (intro on_responses_recovery) simp_all
  show "consecutive_successes (on_responses L rs) = 0"
    using a by (intro on_responses_recovery) simp_all
  show "\<forall>k < length rs.
                current_rate (on_responses L (take k rs)) = current_rate L
                \<and> consecutive_successes (on_responses L (take k rs))
                     = consecutive_successes L + int k"
  proof (intro allI impI)
    fix k
    assume "k < length rs"
    then have "on_responses L (take k rs)
        = L\<lparr>consecutive_successes := consecutive_successes L + int k\<rparr>"
      using a by (intro on_responses_before) simp_all
    then show "current_rate (on_responses L (take k rs)) = current_rate L
                \<and> consecutive_successes (on_responses L (take k rs))
                     = consecutive_successes L + int k"
      by simp
  qed
qed

theorem rate_limit_backoff_and_recovery_witness:
  "current_rate (snd (on_response (AdaptiveRateLimiter_init 50 10 1 100 (1/2) (11/10) 0) 429 None 7 7)) = 25
   \<and> current_rate (on_responses (AdaptiveRateLimiter_init 50 10 1 100 (1/2) (11/10) 0) fifty_ok) = 55
   \<and> consecutive_successes (on_responses (AdaptiveRateLimiter_init 50 10 1 100 (1/2) (11/10) 0) fifty_ok) = 0
   \<and> current_rate (on_responses (AdaptiveRateLimiter_init 50 10 1 100 (1/2) (11/10) 0) (take 49 fifty_ok)) = 50
   \<and> consecutive_successes (on_responses (AdaptiveRateLimiter_init 50 10 1 100 (1/2) (11/10) 0) (take 49 fifty_ok)) = 49
   \<and> snd (on_response (AdaptiveRateLimiter_init 50 10 1 100 (1/2) (11/10) 0) 500 None 7 7)
        = AdaptiveRateLimiter_init 50 10 1 100 (1/2) (11/10) 0
   \<and> consecutive_successes (snd (on_response (AdaptiveRateLimiter_init 50 10 1 100 (1/2) (11/10) 0) 200 None 7 7)) = 1"
proof -
  let ?L = "AdaptiveRateLimiter_init 50 10 1 100 (1/2) (11/10) 0"
  have len: "length fifty_ok = 50" by (simp add: fifty_ok_def)
  have ok: "\<forall>r \<in> set fifty_ok. 200 \<le> fst r \<and> fst r < 400" by (auto simp: fifty_ok_def)
  have init: "consecutive_successes ?L = 0" "success_threshold ?L = 50"
    "current_rate ?L = 50" "min_rate ?L = 1" "max_rate ?L = 100"
    "backoff_factor ?L = 1/2" "recovery_factor ?L = 11/10"
    by (simp_all add: AdaptiveRateLimiter_init_def)
  have a: "current_rate (snd (on_response ?L 429 None 7 7)) = 25"
    and b: "current_rate (on_responses ?L fifty_ok) = 55"
    and c: "consecutive_successes (on_responses ?L fifty_ok) = 0"
    and d: "current_rate (on_responses ?L (take 49 fifty_ok)) = 50"
    and e: "consecutive_successes (on_responses ?L (take 49 fifty_ok)) = 49"
    using rate_limit_backoff_and_recovery [of ?L None 7 7 200 fifty_ok] len ok init by simp_all
  have f: "snd (on_response ?L 500 None 7 7) = ?L"
    using rate_limit_backoff_and_recovery [of ?L None 7 7 500 "[]"] by simp
  have g: "consecutive_successes (snd (on_response ?L 200 None 7 7)) = 1"
    using rate_limit_backoff_and_recovery [of ?L None 7 7 200 "[]"] init by simp
  show ?thesis using a b c d e f g by simp
qed

text \<open>
  C2 as stated fails for a limiter whose counter is not zero. After thirty responses with
  status 200 and one with status 500 the counter is still 30; of fifty further responses
  with status in 200..399 the twentieth already raises the rate from 50 to 55, and after
  all fifty the counter is 30, not zero.
\<close>

theorem recovery_after_error_counterexample:
  "consecutive_successes stale_limiter = 30
   \<and> current_rate stale_limiter = 50
   \<and> current_rate (on_responses stale_limiter (take 20 fifty_ok)) = 55
   \<and> current_rate (on_responses stale_limiter fifty_ok) = 55
   \<and> consecutive_successes (on_responses stale_limiter fifty_ok) = 30
   \<and> consecutive_successes (on_responses stale_limiter fifty_ok) \<noteq> 0"
proof -
  let ?L = "AdaptiveRateLimiter_init 50 10 1 100 (1/2) (11/10) 0"
  have st: "consecutive_successes stale_limiter = 30" "current_rate stale_limiter = 50"
    "success_threshold stale_limiter = 50" "max_rate stale_limiter = 100"
    "recovery_factor stale_limiter = 11/10"
    by (simp_all add: stale_limiter_state AdaptiveRateLimiter_init_def)
  have split: "fifty_ok = take 20 fifty_ok @ drop 20 fifty_ok" by simp
  have ok20: "\<forall>r \<in> set (take 20 fifty_ok). 200 \<le> fst r \<and> fst r < 400"
    by (auto simp: fifty_ok_def dest: in_set_takeD)
  have ok30: "\<forall>r \<in> set (drop 20 fifty_ok). 200 \<le> fst r \<and> fst r < 400"
    by (auto simp: fifty_ok_def dest: in_set_dropD)
  have len20: "int (length (take 20 fifty_ok)) = success_threshold stale_limiter - consecutive_successes stale_limiter"
    by (simp add: st fifty_ok_def)
  have lt: "consecutive_successes stale_limiter < success_threshold stale_limiter"
    by (simp add: st)
  let ?B = "on_responses stale_limiter (take 20 fifty_ok)"
  have B: "current_rate ?B = 55" "consecutive_successes ?B = 0" "success_threshold ?B = 50"
    using on_responses_recovery [OF lt len20 ok20] by (simp_all add: st)
  have len30: "length fifty_ok = 50"
    by (simp add: fifty_ok_def)
  have "on_responses ?B (drop 20 fifty_ok)
      = ?B\<lparr>consecutive_successes := consecutive_successes ?B + int (length (drop 20 fifty_ok))\<rparr>"
    using ok30 by (rule on_responses_below) (simp add: B len30)
  then have rest: "on_responses ?B (drop 20 fifty_ok) = ?B\<lparr>consecutive_successes := 30\<rparr>"
    by (simp add: B len30)
  have "on_responses stale_limiter fifty_ok = on_responses ?B (drop 20 fifty_ok)"
    using on_responses_append [of stale_limiter "take 20 fifty_ok" "drop 20 fifty_ok"] split
    by simp
  then have all: "on_responses stale_limiter fifty_ok = ?B\<lparr>consecutive_successes := 30\<rparr>"
    using rest by simp
  show ?thesis
    using st B by (simp add: all)
qed

section \<open>Bounds on the current rate\<close>

lemma ensure_host_bucket_fields:
  "current_rate (ensure_host_bucket L h t) = current_rate L"
  "min_rate (ensure_host_bucket L h t) = min_rate L"
  "max_rate (ensure_host_bucket L h t) = max_rate L"
  "backoff_factor (ensure_host_bucket L h t) = backoff_factor L"
  "recovery_factor (ensure_host_bucket L h t) = recovery_factor L"
  "bucket (ensure_host_bucket L h t) = bucket L"
  "AdaptiveRateLimiter.stats (ensure_host_bucket L h t) = AdaptiveRateLimiter.stats L"
  by (simp_all add: ensure_host_bucket_def)

lemma count_throttled_fields:
  "current_rate (count_throttled L) = current_rate L"
  "min_rate (count_throttled L) = min_rate L"
  "max_rate (count_throttled L) = max_rate L"
  "backoff_factor (count_throttled L) = backoff_factor L"
  "recovery_factor (count_throttled L) = recovery_factor L"
  "bucket (count_throttled L) = bucket L"
  "host_buckets (count_throttled L) = host_buckets L"
  by (simp_all add: count_throttled_def)

lemma acquire_fields:
  "current_rate (snd (AdaptiveRateLimiter_acquire L hst t1 t2 t3)) = current_rate L"
  "min_rate (snd (AdaptiveRateLimiter_acquire L hst t1 t2 t3)) = min_rate L"
  "max_rate (snd (AdaptiveRateLimiter_acquire L hst t1 t2 t3)) = max_rate L"
  "backoff_factor (snd (AdaptiveRateLimiter_acquire L hst t1 t2 t3)) = backoff_factor L"
  "recovery_factor (snd (AdaptiveRateLimiter_acquire L hst t1 t2 t3)) = recovery_factor L"
  by (simp_all add: AdaptiveRateLimiter_acquire_def Let_def ensure_host_bucket_fields
      count_throttled_fields split: option.split)

lemma acquire_rate_inv:
  "rate_inv L \<Longrightarrow> rate_inv (snd (AdaptiveRateLimiter_acquire L hst t1 t2 t3))"
  by (simp add: rate_inv_def acquire_fields)

lemma handle_rate_limit_hit_rate_inv:
  assumes "rate_inv L"
  shows "rate_inv (snd (handle_rate_limit_hit L hst tw1 tw2))"
proof -
  have "0 \<le> current_rate L" using assms by (simp add: rate_inv_def)
  moreover have "backoff_factor L \<le> 1" using assms by (simp add: rate_inv_def)
  ultimately have "current_rate L * backoff_factor L \<le> current_rate L * 1"
    by (intro mult_left_mono) simp_all
  then have "current_rate L * backoff_factor L \<le> current_rate L"
    by simp
  then have "max (min_rate L) (current_rate L * backoff_factor L) \<le> max_rate L"
    using assms by (simp add: rate_inv_def)
  then show ?thesis
    using assms
    by (simp add: rate_inv_def handle_rate_limit_hit_rate handle_rate_limit_hit_params)
qed

lemma handle_success_rate_inv:
  assumes "rate_inv L"
  shows "rate_inv (handle_success L hst)"
proof -
  have "0 \<le> current_rate L" "1 \<le> recovery_factor L" using assms by (simp_all add: rate_inv_def)
  then have "current_rate L \<le> current_rate L * recovery_factor L"
    by (simp add: mult_le_cancel_left1)
  then have lo: "min_rate L \<le> min (max_rate L) (current_rate L * recovery_factor L)"
    using assms by (simp add: rate_inv_def)
  show ?thesis
  proof (cases "success_threshold L \<le> consecutive_successes L + 1")
    case True
    then show ?thesis
      using assms lo
      by (simp add: rate_inv_def handle_success_reached_rate handle_success_params)
  next
    case False
    then have "handle_success L hst = L\<lparr>consecutive_successes := consecutive_successes L + 1\<rparr>"
      by (intro handle_success_below) simp
    then show ?thesis using assms by (simp add: rate_inv_def)
  qed
qed

lemma on_response_rate_inv:
  "rate_inv L \<Longrightarrow> rate_inv (snd (on_response L s hst tw1 tw2))"
  by (simp add: on_response_def handle_rate_limit_hit_rate_inv handle_success_rate_inv)

lemma on_response_same_params:
  "same_params L (snd (on_response L s hst tw1 tw2))"
  by (simp add: on_response_def same_params_def handle_rate_limit_hit_params handle_success_params)

lemma reset_rate_inv:
  "rate_inv L \<Longrightarrow> min_rate L \<le> DEFAULT_RATE_LIMIT \<Longrightarrow> DEFAULT_RATE_LIMIT \<le> max_rate L \<Longrightarrow>
   rate_inv (reset L now)"
  by (simp add: rate_inv_def reset_def)

lemma limiter_step_same_params: "same_params L (limiter_step L c)"
proof (cases c)
  case (Acquire hst t1 t2 t3)
  then show ?thesis by (simp add: same_params_def acquire_fields)
next
  case (OnResponse s hst tw1 tw2)
  then show ?thesis using on_response_same_params by simp
next
  case (Reset now)
  then show ?thesis by (simp add: same_params_def reset_def)
qed

lemma limiter_step_rate_inv:
  assumes "rate_inv L"
    and "is_reset c \<longrightarrow> min_rate L \<le> DEFAULT_RATE_LIMIT \<and> DEFAULT_RATE_LIMIT \<le> max_rate L"
  shows "rate_inv (limiter_step L c)"
proof (cases c)
  case (Acquire hst t1 t2 t3)
  then show ?thesis using assms by (simp add: acquire_rate_inv)
next
  case (OnResponse s hst tw1 tw2)
  then show ?thesis using assms by (simp add: on_response_rate_inv)
next
  case (Reset now)
  then show ?thesis using assms by (simp add: reset_rate_inv)
qed

lemma limiter_trace_rate_inv:
  "rate_inv L \<Longrightarrow>
   (list_ex is_reset calls \<longrightarrow> min_rate L \<le> DEFAULT_RATE_LIMIT \<and> DEFAULT_RATE_LIMIT \<le> max_rate L) \<Longrightarrow>
   \<forall>L' \<in> set (limiter_trace L calls). rate_inv L'"
proof (induction calls arbitrary: L)
  case Nil
  then show ?case by simp
next
  case (Cons c calls)
  let ?L = "limiter_step L c"
  have inv: "rate_inv ?L"
    using Cons.prems by (intro limiter_step_rate_inv) auto
  have same: "min_rate ?L = min_rate L" "max_rate ?L = max_rate L"
    using limiter_step_same_params [of L c] by (simp_all add: same_params_def)
  have "list_ex is_reset calls \<longrightarrow> min_rate ?L \<le> DEFAULT_RATE_LIMIT \<and> DEFAULT_RATE_LIMIT \<le> max_rate ?L"
    using Cons.prems(2) same by simp
  then have "\<forall>L' \<in> set (limiter_trace ?L calls). rate_inv L'"
    using inv by (rule Cons.IH [rotated])
  then show ?case using inv by (simp add: Let_def)
qed

text \<open>
  C8 (as amended). If the limiter is constructed with \<open>0 \<le> min_rate \<le> initial_rate \<le> max_rate\<close>,
  \<open>backoff_factor \<le> 1\<close> and \<open>1 \<le> recovery_factor\<close>, then \<open>current_rate\<close> lies in
  \<open>[min_rate, max_rate]\<close> right after construction and after every later call of
  \<^verbatim>\<open>acquire\<close>, \<^verbatim>\<open>on_response\<close> and, provided \<open>min_rate \<le> DEFAULT_RATE_LIMIT \<le> max_rate\<close>,
  \<^verbatim>\<open>reset\<close>.
\<close>

theorem current_rate_bounds:
  assumes "0 \<le> mn" and "mn \<le> initial_rate" and "initial_rate \<le> mx"
    and "bf \<le> 1" and "1 \<le> rf"
    and "list_ex is_reset calls \<longrightarrow> mn \<le> DEFAULT_RATE_LIMIT \<and> DEFAULT_RATE_LIMIT \<le> mx"
  shows "\<forall>L \<in> set (AdaptiveRateLimiter_init initial_rate burst_size mn mx bf rf t0
                    # limiter_trace (AdaptiveRateLimiter_init initial_rate burst_size mn mx bf rf t0) calls).
           min_rate L \<le> current_rate L \<and> current_rate L \<le> max_rate L"
proof -
  let ?L = "AdaptiveRateLimiter_init initial_rate burst_size mn mx bf rf t0"
  have inv: "rate_inv ?L"
    using assms by (simp add: rate_inv_def AdaptiveRateLimiter_init_def)
  have "list_ex is_reset calls \<longrightarrow> min_rate ?L \<le> DEFAULT_RATE_LIMIT \<and> DEFAULT_RATE_LIMIT \<le> max_rate ?L"
    using assms(6) by (simp add: AdaptiveRateLimiter_init_def)
  with inv have "\<forall>L' \<in> set (limiter_trace ?L calls). rate_inv L'"
    by (rule limiter_trace_rate_inv)
  then show ?thesis using inv by (simp add: rate_inv_def)
qed

theorem current_rate_bounds_witness:
  "map current_rate (limiter_trace (AdaptiveRateLimiter_init 3 10 1 100 (1/2) (11/10) 0) sample_calls)
     = [3, 3/2, 1, 1, 50, 50]
   \<and> list_all (\<lambda>L. min_rate L \<le> current_rate L \<and> current_rate L \<le> max_rate L)
        (AdaptiveRateLimiter_init 3 10 1 100 (1/2) (11/10) 0
           # limiter_trace (AdaptiveRateLimiter_init 3 10 1 100 (1/2) (11/10) 0) sample_calls)"
proof -
  have "list_ex is_reset sample_calls \<longrightarrow> (1::real) \<le> DEFAULT_RATE_LIMIT \<and> DEFAULT_RATE_LIMIT \<le> 100"
    by (simp add: DEFAULT_RATE_LIMIT_def)
  then have "list_all (\<lambda>L. min_rate L \<le> current_rate L \<and> current_rate L \<le> max_rate L)
        (AdaptiveRateLimiter_init 3 10 1 100 (1/2) (11/10) 0
           # limiter_trace (AdaptiveRateLimiter_init 3 10 1 100 (1/2) (11/10) 0) sample_calls)"
    using current_rate_bounds [of 1 3 100 "1/2" "11/10" sample_calls 10 0]
    by (simp add: list_all_iff)
  moreover have "map current_rate
      (limiter_trace (AdaptiveRateLimiter_init 3 10 1 100 (1/2) (11/10) 0) sample_calls)
        = [3, 3/2, 1, 1, 50, 50]"
    by code_simp
  ultimately show ?thesis by blast
qed

text \<open>
  C8 as stated fails right after construction: \<^verbatim>\<open>AdaptiveRateLimiter(initial_rate=500)\<close>
  keeps \<open>current_rate = 500\<close> above \<open>max_rate = 100\<close>, since the constructor stores
  \<open>initial_rate\<close> as it is.
\<close>

theorem current_rate_initial_counterexample:
  "current_rate (AdaptiveRateLimiter_init 500 10 1 100 (1/2) (11/10) 0) = 500
   \<and> max_rate (AdaptiveRateLimiter_init 500 10 1 100 (1/2) (11/10) 0) = 100
   \<and> \<not> (current_rate (AdaptiveRateLimiter_init 500 10 1 100 (1/2) (11/10) 0)
          \<le> max_rate (AdaptiveRateLimiter_init 500 10 1 100 (1/2) (11/10) 0))"
  by (simp add: AdaptiveRateLimiter_init_def)

section \<open>The two buckets of the adaptive limiter\<close>

lemma acquire_global_refused:
  "\<not> fst (TokenBucket_acquire (bucket L) 1 t1) \<Longrightarrow>
   fst (AdaptiveRateLimiter_acquire L hst t1 t2 t3) = Inr False"
  by (simp add: AdaptiveRateLimiter_acquire_def Let_def)

lemma acquire_host_path:
  assumes "h \<noteq> []" and "fst (TokenBucket_acquire (bucket L) 1 t1)"
    and "host_buckets (ensure_host_bucket L h t2) h = Some hb"
  shows "AdaptiveRateLimiter_acquire L (Some h) t1 t2 t3 =
     (let L2 = L\<lparr>AdaptiveRateLimiter.stats := (AdaptiveRateLimiter.stats L)\<lparr>RateLimitStats.total_requests := RateLimitStats.total_requests (AdaptiveRateLimiter.stats L) + 1\<rparr>,
                  bucket := snd (TokenBucket_acquire (bucket L) 1 t1)\<rparr>;
          L3 = ensure_host_bucket L2 h t2;
          L4 = L3\<lparr>host_buckets := (host_buckets L3)(h \<mapsto> snd (TokenBucket_acquire hb 1 t3))\<rparr>
      in if \<not> fst (TokenBucket_acquire hb 1 t3) then (Inr False, count_throttled L4)
         else case host_stats L4 h of
                None \<Rightarrow> (Inl KeyError, L4)
              | Some hs \<Rightarrow>
                  (Inr True,
                   L4\<lparr>host_stats := (host_stats L4)
                        (h \<mapsto> hs\<lparr>RateLimitStats.total_requests := RateLimitStats.total_requests hs + 1\<rparr>)\<rparr>))"
proof -
  let ?L2 = "L\<lparr>AdaptiveRateLimiter.stats := (AdaptiveRateLimiter.stats L)\<lparr>RateLimitStats.total_requests := RateLimitStats.total_requests (AdaptiveRateLimiter.stats L) + 1\<rparr>,
                  bucket := snd (TokenBucket_acquire (bucket L) 1 t1)\<rparr>"
  have "host_buckets (ensure_host_bucket ?L2 h t2) h = host_buckets (ensure_host_bucket L h t2) h"
    by (simp add: ensure_host_bucket_def)
  then have "host_buckets (ensure_host_bucket ?L2 h t2) h = Some hb"
    using assms(3) by simp
  then show ?thesis
    using assms(1,2) by (simp add: AdaptiveRateLimiter_acquire_def Let_def truthy_def)
qed

lemma ensure_host_bucket_new:
  "host_buckets L h = None \<Longrightarrow>
   host_buckets (ensure_host_bucket L h t2) h =
     Some \<lparr>rate = max 1 (min (current_rate L / 2) 1000), capacity = 5, tokens = 5, last_update = t2\<rparr>"
  by (simp add: ensure_host_bucket_def TokenBucket_init_def DEFAULT_BURST_SIZE_def
      RATE_LIMIT_MIN_def RATE_LIMIT_MAX_def)

lemma ensure_host_bucket_total:
  "\<exists>hb. host_buckets (ensure_host_bucket L h t2) h = Some hb"
  by (cases "host_buckets L h") (simp_all add: ensure_host_bucket_def)

lemma TokenBucket_acquire_keeps:
  "rate (snd (TokenBucket_acquire b n now)) = rate b"
  "capacity (snd (TokenBucket_acquire b n now)) = capacity b"
  by (simp_all add: TokenBucket_acquire_def Let_def)

lemma acquire_host_bucket_after:
  assumes "h \<noteq> []" and "fst (TokenBucket_acquire (bucket L) 1 t1)"
    and "host_buckets (ensure_host_bucket L h t2) h = Some hb"
  shows "host_buckets (snd (AdaptiveRateLimiter_acquire L (Some h) t1 t2 t3)) h
           = Some (snd (TokenBucket_acquire hb 1 t3))"
  by (simp add: acquire_host_path [OF assms] Let_def count_throttled_fields split: option.split)

text \<open>
  C7 (as amended). On the first probe to a host that the global bucket grants,
  \<^verbatim>\<open>acquire\<close> creates the host's bucket with rate \<open>current_rate / 2\<close> clamped to
  \<open>[RATE_LIMIT_MIN, RATE_LIMIT_MAX] = [1, 1000]\<close> and with capacity and initial tokens
  \<open>max 1 (DEFAULT_BURST_SIZE div 2) = 5\<close>, whatever burst size the limiter was built with;
  the bucket keeps that rate and capacity through the call. A probe with a host returns
  \<^verbatim>\<open>True\<close> only if the global bucket and then the host's bucket each granted a token.
\<close>

theorem host_bucket_on_first_probe:
  "(h \<noteq> [] \<and> host_buckets L h = None \<and> fst (TokenBucket_acquire (bucket L) 1 t1) \<longrightarrow>
      host_buckets (ensure_host_bucket L h t2) h =
        Some \<lparr>rate = max 1 (min (current_rate L / 2) 1000), capacity = 5, tokens = 5, last_update = t2\<rparr>
      \<and> (\<exists>hb. host_buckets (snd (AdaptiveRateLimiter_acquire L (Some h) t1 t2 t3)) h = Some hb
             \<and> rate hb = max 1 (min (current_rate L / 2) 1000) \<and> capacity hb = 5))
   \<and> (h \<noteq> [] \<and> fst (AdaptiveRateLimiter_acquire L (Some h) t1 t2 t3) = Inr True \<longrightarrow>
        fst (TokenBucket_acquire (bucket L) 1 t1)
        \<and> (\<exists>hb. host_buckets (ensure_host_bucket L h t2) h = Some hb
               \<and> fst (TokenBucket_acquire hb 1 t3)))"
proof (intro conjI impI)
  assume a: "h \<noteq> [] \<and> host_buckets L h = None \<and> fst (TokenBucket_acquire (bucket L) 1 t1)"
  let ?hb = "\<lparr>rate = max 1 (min (current_rate L / 2) 1000), capacity = 5, tokens = 5,
              last_update = t2\<rparr>"
  show new: "host_buckets (ensure_host_bucket L h t2) h = Some ?hb"
    using a by (simp add: ensure_host_bucket_new)
  have "host_buckets (snd (AdaptiveRateLimiter_acquire L (Some h) t1 t2 t3)) h
          = Some (snd (TokenBucket_acquire ?hb 1 t3))"
    using a new by (intro acquire_host_bucket_after) simp_all
  then show "\<exists>hb. host_buckets (snd (AdaptiveRateLimiter_acquire L (Some h) t1 t2 t3)) h = Some hb
             \<and> rate hb = max 1 (min (current_rate L / 2) 1000) \<and> capacity hb = 5"
    by (simp add: TokenBucket_acquire_keeps)
next
  assume b: "h \<noteq> [] \<and> fst (AdaptiveRateLimiter_acquire L (Some h) t1 t2 t3) = Inr True"
  show g: "fst (TokenBucket_acquire (bucket L) 1 t1)"
  proof (rule ccontr)
    assume "\<not> fst (TokenBucket_acquire (bucket L) 1 t1)"
    then have "fst (AdaptiveRateLimiter_acquire L (Some h) t1 t2 t3) = Inr False"
      by (rule acquire_global_refused)
    then show False using b by simp
  qed
  obtain hb where hb: "host_buckets (ensure_host_bucket L h t2) h = Some hb"
    using ensure_host_bucket_total by blast
  have "fst (TokenBucket_acquire hb 1 t3)"
  proof (rule ccontr)
    assume "\<not> fst (TokenBucket_acquire hb 1 t3)"
    then have "fst (AdaptiveRateLimiter_acquire L (Some h) t1 t2 t3) = Inr False"
      using b g hb by (simp add: acquire_host_path Let_def)
    then show False using b by simp
  qed
  then show "\<exists>hb. host_buckets (ensure_host_bucket L h t2) h = Some hb
               \<and> fst (TokenBucket_acquire hb 1 t3)"
    using hb by blast
qed

theorem host_bucket_on_first_probe_witness:
  "host_buckets (snd (AdaptiveRateLimiter_acquire (AdaptiveRateLimiter_init 50 10 1 100 (1/2) (11/10) 0)
       (Some ''a.example'') 0 0 0)) ''a.example''
     = Some \<lparr>rate = 25, capacity = 5, tokens = 4, last_update = 0\<rparr>
   \<and> fst (AdaptiveRateLimiter_acquire (AdaptiveRateLimiter_init 50 10 1 100 (1/2) (11/10) 0)
       (Some ''a.example'') 0 0 0) = Inr True
   \<and> fst (TokenBucket_acquire (bucket (AdaptiveRateLimiter_init 50 10 1 100 (1/2) (11/10) 0)) 1 0)
   \<and> host_buckets (ensure_host_bucket (AdaptiveRateLimiter_init 50 10 1 100 (1/2) (11/10) 0)
       ''a.example'' 0) ''a.example''
     = Some \<lparr>rate = 25, capacity = 5, tokens = 5, last_update = 0\<rparr>"
proof -
  let ?L = "AdaptiveRateLimiter_init 50 10 1 100 (1/2) (11/10) 0"
  have 1: "host_buckets ?L ''a.example'' = None" by (simp add: AdaptiveRateLimiter_init_def)
  have 2: "fst (AdaptiveRateLimiter_acquire ?L (Some ''a.example'') 0 0 0) = Inr True"
    by code_simp
  have 3: "host_buckets (snd (AdaptiveRateLimiter_acquire ?L (Some ''a.example'') 0 0 0)) ''a.example''
     = Some \<lparr>rate = 25, capacity = 5, tokens = 4, last_update = 0\<rparr>"
    by code_simp
  have 4: "current_rate ?L = 50" by (simp add: AdaptiveRateLimiter_init_def)
  show ?thesis
    using host_bucket_on_first_probe [of "''a.example''" ?L 0 0 0] 1 2 3 4 by simp
qed

text \<open>
  C7 as stated fails for a limiter built with rate 1 and burst 20: the first probe to a
  host creates a bucket of rate 1, not 1/2, and of capacity 5, not 10.
\<close>

theorem host_bucket_half_counterexample:
  "host_buckets (snd (AdaptiveRateLimiter_acquire (AdaptiveRateLimiter_init 1 20 1 100 (1/2) (11/10) 0)
        (Some ''a.example'') 0 0 0)) ''a.example''
       = Some \<lparr>rate = 1, capacity = 5, tokens = 4, last_update = 0\<rparr>
   \<and> current_rate (AdaptiveRateLimiter_init 1 20 1 100 (1/2) (11/10) 0) / 2 = 1/2
   \<and> capacity (bucket (AdaptiveRateLimiter_init 1 20 1 100 (1/2) (11/10) 0)) div 2 = 10
   \<and> rate (the (host_buckets (snd (AdaptiveRateLimiter_acquire
          (AdaptiveRateLimiter_init 1 20 1 100 (1/2) (11/10) 0) (Some ''a.example'') 0 0 0)) ''a.example''))
       \<noteq> current_rate (AdaptiveRateLimiter_init 1 20 1 100 (1/2) (11/10) 0) / 2
   \<and> capacity (the (host_buckets (snd (AdaptiveRateLimiter_acquire
          (AdaptiveRateLimiter_init 1 20 1 100 (1/2) (11/10) 0) (Some ''a.example'') 0 0 0)) ''a.example''))
       \<noteq> capacity (bucket (AdaptiveRateLimiter_init 1 20 1 100 (1/2) (11/10) 0)) div 2"
  by code_simp

text \<open>
  C10. When the global bucket grants a token and the bucket of the host then refuses,
  \<^verbatim>\<open>acquire(host)\<close> returns \<^verbatim>\<open>False\<close>, yet the global bucket has lost the token and
  \<open>total_requests\<close> has been incremented (as has \<open>throttled_requests\<close>).
\<close>

theorem acquire_not_atomic:
  assumes "h \<noteq> []"
    and "fst (TokenBucket_acquire (bucket L) 1 t1)"
    and "host_buckets L h = Some hb"
    and "\<not> fst (TokenBucket_acquire hb 1 t3)"
  shows "fst (AdaptiveRateLimiter_acquire L (Some h) t1 t2 t3) = Inr False
    \<and> tokens (bucket (snd (AdaptiveRateLimiter_acquire L (Some h) t1 t2 t3)))
        = min (real_of_int (capacity (bucket L)))
              (tokens (bucket L) + (t1 - last_update (bucket L)) * rate (bucket L)) - 1
    \<and> RateLimitStats.total_requests (AdaptiveRateLimiter.stats (snd (AdaptiveRateLimiter_acquire L (Some h) t1 t2 t3)))
        = RateLimitStats.total_requests (AdaptiveRateLimiter.stats L) + 1
    \<and> throttled_requests (AdaptiveRateLimiter.stats (snd (AdaptiveRateLimiter_acquire L (Some h) t1 t2 t3)))
        = throttled_requests (AdaptiveRateLimiter.stats L) + 1"
proof -
  have hb: "host_buckets (ensure_host_bucket L h t2) h = Some hb"
    using assms(3) by (simp add: ensure_host_bucket_def)
  have g: "tokens (snd (TokenBucket_acquire (bucket L) 1 t1))
        = min (real_of_int (capacity (bucket L)))
              (tokens (bucket L) + (t1 - last_update (bucket L)) * rate (bucket L)) - 1"
    using assms(2) by (simp add: TokenBucket_acquire_def Let_def split: if_splits)
  show ?thesis
    using assms(4) g
    by (simp add: acquire_host_path [OF assms(1,2) hb] Let_def count_throttled_def
        ensure_host_bucket_fields)
qed

theorem acquire_not_atomic_witness:
  "host_buckets drained ''a.example'' = Some \<lparr>rate = 25, capacity = 5, tokens = 0, last_update = 0\<rparr>
   \<and> tokens (bucket drained) = 5
   \<and> RateLimitStats.total_requests (AdaptiveRateLimiter.stats drained) = 5
   \<and> fst (AdaptiveRateLimiter_acquire drained (Some ''a.example'') 0 0 0) = Inr False
   \<and> tokens (bucket (snd (AdaptiveRateLimiter_acquire drained (Some ''a.example'') 0 0 0))) = 4
   \<and> RateLimitStats.total_requests (AdaptiveRateLimiter.stats (snd (AdaptiveRateLimiter_acquire drained (Some ''a.example'') 0 0 0))) = 6"
proof -
  have hb: "host_buckets drained ''a.example''
      = Some \<lparr>rate = 25, capacity = 5, tokens = 0, last_update = 0\<rparr>"
    by code_simp
  have b: "bucket drained = \<lparr>rate = 50, capacity = 10, tokens = 5, last_update = 0\<rparr>"
    by code_simp
  have n: "RateLimitStats.total_requests (AdaptiveRateLimiter.stats drained) = 5"
    by code_simp
  have g: "fst (TokenBucket_acquire (bucket drained) 1 0)"
    by (simp add: b TokenBucket_acquire_def)
  have r: "\<not> fst (TokenBucket_acquire \<lparr>rate = 25, capacity = 5, tokens = 0, last_update = 0\<rparr> 1 0)"
    by (simp add: TokenBucket_acquire_def)
  have ne: "''a.example'' \<noteq> []" by simp
  show ?thesis
    using acquire_not_atomic [OF ne g hb r, of 0] hb b n by simp
qed

section \<open>Health of a proxy\<close>

lemma record_success_resets:
  "consecutive_failures (stats (record_success p rt now)) = 0"
  "is_healthy (stats (record_success p rt now))"
  by (simp_all add: record_success_def)

lemma record_failure_counts:
  "consecutive_failures (stats (fst (record_failure M p now))) = consecutive_failures (stats p) + 1"
  by (simp add: record_failure_def Let_def)

lemma record_failure_health:
  "is_healthy (stats (fst (record_failure M p now)))
     = (is_healthy (stats p) \<and> consecutive_failures (stats p) + 1 < max_failures M)"
  by (simp add: record_failure_def Let_def)

lemma trailing_failures_snoc:
  "trailing_failures (es @ [e]) = (if is_failure e then trailing_failures es + 1 else 0)"
  by (simp add: trailing_failures_def)

lemma trailing_failures_nonneg: "0 \<le> trailing_failures es"
  by (simp add: trailing_failures_def)

lemma proxy_run:
  assumes "stats p = ProxyStats_init"
  shows "consecutive_failures (stats (foldl (proxy_step M) p es)) = trailing_failures es
       \<and> (is_healthy (stats (foldl (proxy_step M) p es))
            \<longleftrightarrow> trailing_failures es = 0 \<or> trailing_failures es < max_failures M)"
proof (induction es rule: rev_induct)
  case Nil
  show ?case using assms by (simp add: ProxyStats_init_def trailing_failures_def)
next
  case (snoc e es)
  let ?q = "foldl (proxy_step M) p es"
  show ?case
  proof (cases e)
    case (Succeeded rt now)
    then show ?thesis
      by (simp add: record_success_resets trailing_failures_snoc)
  next
    case (Failed now)
    have "0 \<le> trailing_failures es" by (rule trailing_failures_nonneg)
    then show ?thesis
      using snoc Failed
      by (auto simp: record_failure_counts record_failure_health trailing_failures_snoc)
  qed
qed

lemma proxy_trace_nth:
  "k < length es \<Longrightarrow> proxy_trace M p es ! k = foldl (proxy_step M) p (take (Suc k) es)"
proof (induction es arbitrary: p k)
  case Nil
  then show ?case by simp
next
  case (Cons e es)
  show ?case
  proof (cases k)
    case 0
    then show ?thesis by (simp add: Let_def)
  next
    case (Suc j)
    then have "j < length es" using Cons.prems by simp
    then have "proxy_trace M (proxy_step M p e) es ! j
        = foldl (proxy_step M) (proxy_step M p e) (take (Suc j) es)"
      by (rule Cons.IH)
    then show ?thesis using Suc by (simp add: Let_def)
  qed
qed

lemma none_healthy:
  "\<not> list_ex (\<lambda>q. is_healthy (stats q)) ps \<Longrightarrow>
   filter (\<lambda>i. is_healthy (stats (ps ! i))) [0..<length ps] = []"
  by (auto simp: filter_empty_conv list_ex_iff)

lemma min_by_key_mem: "min_by_key ps best rest \<in> set (best # rest)"
  by (induction rest arbitrary: best) auto

lemma selected_mem:
  assumes "hp \<noteq> []"
  shows "selected M hp choice \<in> set hp"
proof -
  have len: "0 < length hp" using assms by simp
  have 1: "hp ! (choice mod length hp) \<in> set hp"
    using len by simp
  have 2: "min_by_key (proxies M) (hd hp) (tl hp) \<in> set hp"
    using min_by_key_mem [of "proxies M" "hd hp" "tl hp"] assms by simp
  have "0 \<le> (current_index M + 1) mod int (length hp)"
       "(current_index M + 1) mod int (length hp) < int (length hp)"
    using len by simp_all
  then have "nat ((current_index M + 1) mod int (length hp)) < length hp"
    by linarith
  then have 3: "hp ! nat ((current_index M + 1) mod int (length hp)) \<in> set hp"
    by simp
  show ?thesis using 1 2 3 by (simp add: selected_def)
qed

lemma get_proxy_recovery:
  assumes "\<not> list_ex (\<lambda>q. is_healthy (stats q)) (proxies M)"
  shows "get_proxy M now choice used =
     (let hp = filter (\<lambda>i. now - last_failure (stats (proxies M ! i)) > health_check_interval M)
                 [0..<length (proxies M)];
          ps = map (reinstate M now) (proxies M);
          k = selected (M\<lparr>proxies := ps\<rparr>) hp choice
      in if hp = [] then (None, M\<lparr>proxies := ps\<rparr>)
         else (Some k,
               M\<lparr>proxies := ps[k := (ps ! k)\<lparr>stats := (stats (ps ! k))\<lparr>last_used := used\<rparr>\<rparr>],
                 current_index :=
                   (if rotation_strategy M = ''random'' \<or> rotation_strategy M = ''performance''
                    then current_index M
                    else (current_index M + 1) mod int (length hp))\<rparr>))"
proof -
  have h: "filter (\<lambda>i. is_healthy (stats (proxies M ! i))) [0..<length (proxies M)] = []"
    using assms by (rule none_healthy)
  show ?thesis
    by (simp add: get_proxy_def h Let_def selected_def)
qed

lemma reinstate_health:
  "\<not> is_healthy (stats p) \<Longrightarrow>
   is_healthy (stats (reinstate M now p)) \<longleftrightarrow> now - last_failure (stats p) > health_check_interval M"
  by (simp add: reinstate_def)

lemma reinstate_failures:
  "now - last_failure (stats p) > health_check_interval M \<Longrightarrow>
   consecutive_failures (stats (reinstate M now p)) = 0"
  by (simp add: reinstate_def)

lemma get_proxy_health_after:
  assumes "\<not> list_ex (\<lambda>q. is_healthy (stats q)) (proxies M)" and "i < length (proxies M)"
  shows "stats (proxies (snd (get_proxy M now choice used)) ! i)
           = (stats (reinstate M now (proxies M ! i)))
               \<lparr>last_used := (if fst (get_proxy M now choice used) = Some i then used
                              else last_used (stats (proxies M ! i)))\<rparr>"
proof -
  have lu: "last_used (stats (reinstate M now (proxies M ! i))) = last_used (stats (proxies M ! i))"
    by (simp add: reinstate_def)
  show ?thesis
    using assms(2) lu
    by (simp add: get_proxy_recovery [OF assms(1)] Let_def nth_list_update)
qed

text \<open>
  C3 (as amended). With \<open>max_failures\<close> positive, after every call of any interleaving of
  \<^verbatim>\<open>record_success\<close> and \<^verbatim>\<open>record_failure\<close> on a new proxy, \<open>consecutive_failures\<close> is the
  number of failures since the last success and the proxy is unhealthy exactly when that
  number has reached \<open>max_failures\<close>; a single success resets the counter to zero and makes
  the proxy healthy. When no proxy is healthy, \<^verbatim>\<open>get_proxy\<close> at time \<open>now\<close> marks healthy
  again exactly the proxies with \<open>now - last_failure > health_check_interval\<close> (strictly),
  returns one of them, and returns \<^verbatim>\<open>None\<close> exactly when there is none.
\<close>

theorem proxy_health:
  "(0 < max_failures M \<and> stats p = ProxyStats_init \<longrightarrow>
      (\<forall>k < length es.
          consecutive_failures (stats (proxy_trace M p es ! k)) = trailing_failures (take (Suc k) es)
          \<and> (is_healthy (stats (proxy_trace M p es ! k))
               \<longleftrightarrow> consecutive_failures (stats (proxy_trace M p es ! k)) < max_failures M)))
   \<and> consecutive_failures (stats (record_success q rt t)) = 0
   \<and> is_healthy (stats (record_success q rt t))
   \<and> (\<not> list_ex (\<lambda>q. is_healthy (stats q)) (proxies M) \<longrightarrow>
        (\<forall>i < length (proxies M).
            (is_healthy (stats (proxies (snd (get_proxy M now choice used)) ! i))
               \<longleftrightarrow> now - last_failure (stats (proxies M ! i)) > health_check_interval M)
            \<and> (is_healthy (stats (proxies (snd (get_proxy M now choice used)) ! i))
               \<longrightarrow> consecutive_failures (stats (proxies (snd (get_proxy M now choice used)) ! i)) = 0))
        \<and> (\<forall>i. fst (get_proxy M now choice used) = Some i \<longrightarrow>
              i < length (proxies M)
              \<and> now - last_failure (stats (proxies M ! i)) > health_check_interval M)
        \<and> (fst (get_proxy M now choice used) = None \<longleftrightarrow>
              (\<forall>i < length (proxies M).
                 \<not> now - last_failure (stats (proxies M ! i)) > health_check_interval M)))"
proof (intro conjI impI allI)
  fix k
  assume a: "0 < max_failures M \<and> stats p = ProxyStats_init" and k: "k < length es"
  have nth: "proxy_trace M p es ! k = foldl (proxy_step M) p (take (Suc k) es)"
    using k by (rule proxy_trace_nth)
  have run: "consecutive_failures (stats (foldl (proxy_step M) p (take (Suc k) es)))
               = trailing_failures (take (Suc k) es)
       \<and> (is_healthy (stats (foldl (proxy_step M) p (take (Suc k) es)))
            \<longleftrightarrow> trailing_failures (take (Suc k) es) = 0
                \<or> trailing_failures (take (Suc k) es) < max_failures M)"
    using a by (intro proxy_run) simp
  show "consecutive_failures (stats (proxy_trace M p es ! k)) = trailing_failures (take (Suc k) es)"
    using nth run by simp
  show "is_healthy (stats (proxy_trace M p es ! k))
               \<longleftrightarrow> consecutive_failures (stats (proxy_trace M p es ! k)) < max_failures M"
    using nth run a by auto
next
  show "consecutive_failures (stats (record_success q rt t)) = 0"
    by (rule record_success_resets)
  show "is_healthy (stats (record_success q rt t))"
    by (rule record_success_resets)
next
  fix i
  assume none: "\<not> list_ex (\<lambda>q. is_healthy (stats q)) (proxies M)" and i: "i < length (proxies M)"
  have old: "\<not> is_healthy (stats (proxies M ! i))"
    using none i by (auto simp: list_ex_iff)
  have after: "stats (proxies (snd (get_proxy M now choice used)) ! i)
           = (stats (reinstate M now (proxies M ! i)))
               \<lparr>last_used := (if fst (get_proxy M now choice used) = Some i then used
                              else last_used (stats (proxies M ! i)))\<rparr>"
    using none i by (rule get_proxy_health_after)
  show h: "is_healthy (stats (proxies (snd (get_proxy M now choice used)) ! i))
               \<longleftrightarrow> now - last_failure (stats (proxies M ! i)) > health_check_interval M"
    using old by (simp add: after reinstate_health)
  assume "is_healthy (stats (proxies (snd (get_proxy M now choice used)) ! i))"
  then have "now - last_failure (stats (proxies M ! i)) > health_check_interval M"
    using h by simp
  then show "consecutive_failures (stats (proxies (snd (get_proxy M now choice used)) ! i)) = 0"
    by (simp add: after reinstate_failures)
next
  fix i
  assume none: "\<not> list_ex (\<lambda>q. is_healthy (stats q)) (proxies M)"
    and sel: "fst (get_proxy M now choice used) = Some i"
  let ?hp = "filter (\<lambda>i. now - last_failure (stats (proxies M ! i)) > health_check_interval M)
                 [0..<length (proxies M)]"
  have ne: "?hp \<noteq> []"
    using sel by (auto simp: get_proxy_recovery [OF none] Let_def split: if_splits)
  then have "i = selected (M\<lparr>proxies := map (reinstate M now) (proxies M)\<rparr>) ?hp choice"
    using sel by (simp add: get_proxy_recovery [OF none] Let_def)
  then have mem: "i \<in> set ?hp"
    using selected_mem [OF ne] by simp
  show "i < length (proxies M)" using mem by simp
  show "now - last_failure (stats (proxies M ! i)) > health_check_interval M" using mem by simp
next
  assume none: "\<not> list_ex (\<lambda>q. is_healthy (stats q)) (proxies M)"
  show "fst (get_proxy M now choice used) = None \<longleftrightarrow>
              (\<forall>i < length (proxies M).
                 \<not> now - last_failure (stats (proxies M ! i)) > health_check_interval M)"
    by (auto simp: get_proxy_recovery [OF none] Let_def filter_empty_conv)
qed

lemma down_proxy_stats:
  "stats down_proxy =
     \<lparr>total_requests = 3, successful_requests = 0, failed_requests = 3,
      total_response_time = 0, last_used = 0, last_success = 0, last_failure = 3,
      consecutive_failures = 3, is_healthy = False\<rparr>"
  by (simp add: down_proxy_def sample_proxy_def record_failure_def ProxyManager_init_def
      ProxyStats_init_def Let_def)

lemma down_pool_fields:
  "proxies down_pool = [down_proxy]"
  "health_check_interval down_pool = 300"
  "rotation_strategy down_pool = ''round_robin''"
  "current_index down_pool = 0"
  by (simp_all add: down_pool_def ProxyManager_init_def)

theorem proxy_health_witness:
  "map (\<lambda>q. (consecutive_failures (stats q), is_healthy (stats q)))
     (proxy_trace (ProxyManager_init 3 300 ''round_robin'') sample_proxy
        [Failed 1, Failed 2, Succeeded (1/10) 3, Failed 4, Failed 5, Failed 6])
     = [(1, True), (2, True), (0, True), (1, True), (2, True), (3, False)]
   \<and> last_failure (stats down_proxy) = 3
   \<and> \<not> is_healthy (stats down_proxy)
   \<and> fst (get_proxy down_pool (6071/20) 0 304) = Some 0
   \<and> is_healthy (stats (proxies (snd (get_proxy down_pool (6071/20) 0 304)) ! 0))
   \<and> consecutive_failures (stats (proxies (snd (get_proxy down_pool (6071/20) 0 304)) ! 0)) = 0"
proof -
  let ?M = "ProxyManager_init 3 300 ''round_robin''"
  let ?es = "[Failed 1, Failed 2, Succeeded (1/10) 3, Failed 4, Failed 5, Failed 6]"
  have tr: "map (\<lambda>q. (consecutive_failures (stats q), is_healthy (stats q)))
     (proxy_trace ?M sample_proxy ?es)
     = [(1, True), (2, True), (0, True), (1, True), (2, True), (3, False)]"
    by (simp add: sample_proxy_def record_failure_def record_success_def ProxyManager_init_def
        ProxyStats_init_def Let_def)
  have dp: "last_failure (stats down_proxy) = 3" "\<not> is_healthy (stats down_proxy)"
    by (simp_all add: down_proxy_stats)
  have none: "\<not> list_ex (\<lambda>q. is_healthy (stats q)) (proxies down_pool)"
    using dp by (simp add: down_pool_fields)
  have pre: "0 < max_failures ?M \<and> stats sample_proxy = ProxyStats_init"
    by (simp add: ProxyManager_init_def sample_proxy_def)
  have sel: "fst (get_proxy down_pool (6071/20) 0 304) = Some 0"
    by (simp add: get_proxy_def down_pool_fields down_proxy_stats Let_def)
  have "is_healthy (stats (proxies (snd (get_proxy down_pool (6071/20) 0 304)) ! 0))
      \<and> consecutive_failures (stats (proxies (snd (get_proxy down_pool (6071/20) 0 304)) ! 0)) = 0"
    using proxy_health [of down_pool sample_proxy "[]" sample_proxy 0 0 "6071/20" 0 304]
      none dp by (simp add: down_pool_fields)
  then show ?thesis
    using tr dp sel by simp
qed

text \<open>
  C3 as stated fails at the boundary: with an interval of 300 and the last failure at
  time 3, \<open>now - last_failure = 300\<close> at time 303, yet \<^verbatim>\<open>get_proxy\<close> returns \<^verbatim>\<open>None\<close> and
  leaves the only proxy unhealthy, since the source compares with \<^verbatim>\<open>>\<close>.
\<close>

theorem proxy_recovery_boundary_counterexample:
  "303 - last_failure (stats (proxies down_pool ! 0)) \<ge> health_check_interval down_pool
   \<and> \<not> is_healthy (stats (proxies down_pool ! 0))
   \<and> fst (get_proxy down_pool 303 0 303) = None
   \<and> \<not> is_healthy (stats (proxies (snd (get_proxy down_pool 303 0 303)) ! 0))"
  by (simp add: get_proxy_def down_pool_fields down_proxy_stats Let_def reinstate_def)

section \<open>Adding proxies\<close>

lemma Proxy_post_init_url:
  "Proxy_post_init lib p = Inr q \<Longrightarrow> Proxy.url q = Proxy.url p"
  by (auto simp: Proxy_post_init_def split: sum.splits if_splits)

lemma build_proxy_url:
  "build_proxy lib u t parsed = Inr q \<Longrightarrow> Proxy.url q = u"
  by (auto simp: build_proxy_def split: sum.splits dest: Proxy_post_init_url)

lemma add_proxy_False:
  "\<not> fst (add_proxy lib M u) \<Longrightarrow> fst (snd (add_proxy lib M u)) = M"
  by (simp add: add_proxy_def Let_def split: sum.splits if_splits)

lemma add_proxy_True:
  assumes "fst (add_proxy lib M u)"
  shows "\<exists>p. Proxy.url p = u \<and> fst (snd (add_proxy lib M u)) = M\<lparr>proxies := proxies M @ [p]\<rparr>"
    and "\<not> list_ex (\<lambda>q. Proxy.url q = u) (proxies M)"
    and "fst (validate_proxy_url lib u)"
    and "\<exists>parsed. urlparse lib u = Inr parsed \<and> supported_type (lower (pr_scheme parsed))"
  using assms
  by (auto simp: add_proxy_def Let_def proxy_in_def
      split: sum.splits if_splits dest: build_proxy_url)

lemma add_proxy_rejects:
  assumes "\<not> fst (validate_proxy_url lib u)
      \<or> (\<exists>parsed. urlparse lib u = Inr parsed \<and> \<not> supported_type (lower (pr_scheme parsed)))
      \<or> list_ex (\<lambda>q. Proxy.url q = u) (proxies M)"
  shows "\<not> fst (add_proxy lib M u)"
  using assms add_proxy_True(2,3,4) [of lib M u] by auto

lemma load_lines_count:
  "load_lines lib M n lines = (n', M', logged) \<Longrightarrow>
   n' = n + (int (length (proxies M')) - int (length (proxies M))) \<and> prefix (proxies M) (proxies M')"
proof (induction lines arbitrary: M n n' M' logged)
  case Nil
  then show ?case by simp
next
  case (Cons line rest)
  show ?case
  proof (cases "is_entry line")
    case False
    then have "load_lines lib M n rest = (n', M', logged)"
      using Cons.prems by (auto simp: is_entry_def Let_def)
    then show ?thesis by (rule Cons.IH)
  next
    case True
    obtain added M1 log1 where add: "add_proxy lib M (strip line) = (added, M1, log1)"
      by (cases "add_proxy lib M (strip line)") auto
    obtain n2 M2 log2 where rest: "load_lines lib M1 (if added then n + 1 else n) rest = (n2, M2, log2)"
      by (cases "load_lines lib M1 (if added then n + 1 else n) rest") auto
    have res: "n' = n2" "M' = M2"
      using Cons.prems True add rest by (simp_all add: is_entry_def Let_def)
    have ih: "n2 = (if added then n + 1 else n) + (int (length (proxies M2)) - int (length (proxies M1)))
              \<and> prefix (proxies M1) (proxies M2)"
      using rest by (rule Cons.IH)
    have step: "int (length (proxies M1)) = int (length (proxies M)) + (if added then 1 else 0)
              \<and> prefix (proxies M) (proxies M1)"
    proof (cases added)
      case True
      then have "fst (add_proxy lib M (strip line))" using add by simp
      then obtain p where "fst (snd (add_proxy lib M (strip line))) = M\<lparr>proxies := proxies M @ [p]\<rparr>"
        using add_proxy_True(1) by blast
      then have "M1 = M\<lparr>proxies := proxies M @ [p]\<rparr>" using add by simp
      then show ?thesis using True by simp
    next
      case False
      then have "\<not> fst (add_proxy lib M (strip line))" using add by simp
      then have "fst (snd (add_proxy lib M (strip line))) = M" by (rule add_proxy_False)
      then show ?thesis using False add by simp
    qed
    show ?thesis
      using res ih step by (auto intro: prefix_order.trans)
  qed
qed

lemma load_lines_skips:
  "load_lines lib M n (filter is_entry lines) = load_lines lib M n lines"
proof (induction lines arbitrary: M n)
  case Nil
  then show ?case by simp
next
  case (Cons line rest)
  show ?case
  proof (cases "is_entry line")
    case True
    then show ?thesis
      using Cons.IH by (simp add: is_entry_def Let_def split: prod.splits)
  next
    case False
    then show ?thesis
      using Cons.IH by (auto simp: is_entry_def Let_def)
  qed
qed

lemma str_nat_samples:
  "str_nat 2 = ''2''" "str_nat 8080 = ''8080''" "str_nat 1080 = ''1080''"
  by (subst str_nat.simps, simp)+

lemma str_int_samples:
  "str_int 2 = ''2''" "str_int 8080 = ''8080''" "str_int 1080 = ''1080''"
  by (simp_all add: str_int_def str_nat_samples)

lemma strip_samples:
  "strip (''# proxies'' @ [CHR 0x0A]) = ''# proxies''"
  "strip [CHR 0x0A] = []"
  "strip (''http://10.0.0.1:8080'' @ [CHR 0x0A]) = ''http://10.0.0.1:8080''"
  "strip (''  ftp://files.example'' @ [CHR 0x0A]) = ''ftp://files.example''"
  "strip (''socks5://proxy.example'' @ [CHR 0x0A]) = ''socks5://proxy.example''"
  "strip ''http://10.0.0.1:8080'' = ''http://10.0.0.1:8080''"
  "strip ''ftp://files.example'' = ''ftp://files.example''"
  "strip ''socks5://proxy.example'' = ''socks5://proxy.example''"
  by (simp_all add: strip_def isspace_def)

lemma lower_samples:
  "lower ''http://10.0.0.1:8080'' = ''http://10.0.0.1:8080''"
  "lower ''ftp://files.example'' = ''ftp://files.example''"
  "lower ''socks5://proxy.example'' = ''socks5://proxy.example''"
  "lower ''http'' = ''http''"
  "lower ''socks5'' = ''socks5''"
  by code_simp+

lemma validate_ftp: "validate_proxy_url sample_lib ''ftp://files.example''
   = (False, ''Proxy URL must start with one of: http://, https://, socks4://, socks5://'')"
  by (simp add: validate_proxy_url_def strip_samples lower_samples Let_def)

lemma urlparse_samples:
  "urlparse sample_lib ''http://10.0.0.1:8080'' =
        Inr \<lparr>pr_scheme = ''http'', pr_netloc = ''10.0.0.1:8080'', pr_hostname = Some ''10.0.0.1'',
             pr_port = Inr (Some 8080), pr_username = None, pr_password = None\<rparr>"
  "urlparse sample_lib ''socks5://proxy.example'' =
        Inr \<lparr>pr_scheme = ''socks5'', pr_netloc = ''proxy.example'', pr_hostname = Some ''proxy.example'',
             pr_port = Inr None, pr_username = None, pr_password = None\<rparr>"
  by (simp_all add: sample_lib_def sample_urlparse_def)

lemma re_match_samples:
  "re_match sample_lib pattern ''10.0.0.1''"
  "re_match sample_lib ''^[a-zA-Z0-9.-]+$'' ''proxy.example''"
  by (simp_all add: sample_lib_def)

lemma validate_samples:
  "validate_proxy_url sample_lib ''http://10.0.0.1:8080'' = (True, ''http://10.0.0.1:8080'')"
  "validate_proxy_url sample_lib ''socks5://proxy.example'' = (True, ''socks5://proxy.example'')"
  by (simp_all add: validate_proxy_url_def strip_samples lower_samples Let_def urlparse_samples
      truthy_def re_match_samples)

lemma build_samples:
  "build_proxy sample_lib ''http://10.0.0.1:8080'' ''http''
       \<lparr>pr_scheme = ''http'', pr_netloc = ''10.0.0.1:8080'', pr_hostname = Some ''10.0.0.1'',
             pr_port = Inr (Some 8080), pr_username = None, pr_password = None\<rparr> = Inr sample_proxy"
  "build_proxy sample_lib ''socks5://proxy.example'' ''socks5''
        \<lparr>pr_scheme = ''socks5'', pr_netloc = ''proxy.example'', pr_hostname = Some ''proxy.example'',
             pr_port = Inr None, pr_username = None, pr_password = None\<rparr> = Inr socks_proxy"
  by (simp_all add: build_proxy_def Proxy_post_init_def port_or_def truthy_def sample_proxy_def
      socks_proxy_def)

lemma add_samples:
  "add_proxy sample_lib M ''ftp://files.example'' =
     (False, M, [(LogWarning, ''Invalid proxy URL: Proxy URL must start with one of: http://, https://, socks4://, socks5://'')])"
  "add_proxy sample_lib M ''http://10.0.0.1:8080'' =
     (if list_ex (\<lambda>q. Proxy.url q = ''http://10.0.0.1:8080'') (proxies M) then (False, M, [])
      else (True, M\<lparr>proxies := proxies M @ [sample_proxy]\<rparr>,
            [(LogInfo, ''Added proxy: 10.0.0.1:8080 (http)'')]))"
  "add_proxy sample_lib M ''socks5://proxy.example'' =
     (if list_ex (\<lambda>q. Proxy.url q = ''socks5://proxy.example'') (proxies M) then (False, M, [])
      else (True, M\<lparr>proxies := proxies M @ [socks_proxy]\<rparr>,
            [(LogInfo, ''Added proxy: proxy.example:1080 (socks5)'')]))"
  by (simp_all add: add_proxy_def validate_ftp validate_samples urlparse_samples build_samples
      lower_samples supported_type_def proxy_in_def sample_proxy_def socks_proxy_def
      str_opt_def str_int_samples)

lemma load_sample: "load_from_file sample_lib sample_fs (ProxyManager_init 3 300 ''round_robin'') ''config/proxies.txt''
  = (2, (ProxyManager_init 3 300 ''round_robin'')\<lparr>proxies := [sample_proxy, socks_proxy]\<rparr>,
     [(LogInfo, ''Added proxy: 10.0.0.1:8080 (http)''),
      (LogWarning, ''Invalid proxy URL: Proxy URL must start with one of: http://, https://, socks4://, socks5://''),
      (LogInfo, ''Added proxy: proxy.example:1080 (socks5)''),
      (LogInfo, ''Loaded 2 proxies from config/proxies.txt'')])"
  by (simp add: load_from_file_def sample_fs_def sample_file_def strip_def isspace_def add_samples
      ProxyManager_init_def sample_proxy_def socks_proxy_def str_int_samples)

lemma add_proxy_parse_failure:
  "urlparse lib u = Inl e \<Longrightarrow> \<not> fst (add_proxy lib M u)"
  "urlparse lib u = Inr parsed \<Longrightarrow> pr_port parsed = Inl e \<Longrightarrow> \<not> fst (add_proxy lib M u)"
  by (simp_all add: add_proxy_def Let_def build_proxy_def)

lemma bad_port_samples:
  "strip ''http://10.0.0.1:99999'' = ''http://10.0.0.1:99999''"
  "urlparse sample_lib ''http://10.0.0.1:99999'' =
     Inr \<lparr>pr_scheme = ''http'', pr_netloc = ''10.0.0.1:99999'', pr_hostname = Some ''10.0.0.1'',
          pr_port = Inl ''Port out of range 0-65535'', pr_username = None, pr_password = None\<rparr>"
  by (simp_all add: strip_def isspace_def sample_lib_def sample_urlparse_def)

lemma lower_bad_port: "lower ''http://10.0.0.1:99999'' = ''http://10.0.0.1:99999''"
  by code_simp

lemma add_bad_port:
  "add_proxy sample_lib M ''http://10.0.0.1:99999'' =
     (False, M, [(LogWarning, ''Invalid proxy URL: Proxy URL parsing error: Port out of range 0-65535'')])"
  by (simp add: add_proxy_def validate_proxy_url_def bad_port_samples lower_bad_port Let_def)

text \<open>
  C9. \<^verbatim>\<open>add_proxy\<close> returns \<^verbatim>\<open>False\<close> and leaves the manager as it was when the validator
  rejects the URL, when the scheme is not one of http, https, socks4, socks5, or when a
  proxy with that URL is in the pool; it raises nothing (a URL that \<^verbatim>\<open>urlparse\<close> or the
  reading of its port rejects gives \<^verbatim>\<open>False\<close> too), and a \<^verbatim>\<open>False\<close> result never changes
  the manager. \<^verbatim>\<open>load_from_file\<close> returns the number of proxies it appended to the
  pool, treats a file as it treats the file without its blank and \<^verbatim>\<open>#\<close> lines, and for a
  missing file returns 0, leaves the manager as it was and logs one warning.
\<close>

theorem add_proxy_and_load_from_file:
  "((\<not> fst (validate_proxy_url lib u)
       \<or> (\<exists>parsed. urlparse lib u = Inr parsed \<and> \<not> supported_type (lower (pr_scheme parsed)))
       \<or> list_ex (\<lambda>q. Proxy.url q = u) (proxies M))
      \<longrightarrow> fst (add_proxy lib M u) = False)
   \<and> (fst (add_proxy lib M u) = False \<longrightarrow> fst (snd (add_proxy lib M u)) = M)
   \<and> (urlparse lib u = Inl e \<longrightarrow> fst (add_proxy lib M u) = False)
   \<and> (urlparse lib u = Inr parsed' \<and> pr_port parsed' = Inl e \<longrightarrow> fst (add_proxy lib M u) = False)
   \<and> (fs path = FileLines lines failure \<longrightarrow>
        fst (load_from_file lib fs M path)
          = int (length (proxies (fst (snd (load_from_file lib fs M path)))))
            - int (length (proxies M))
        \<and> prefix (proxies M) (proxies (fst (snd (load_from_file lib fs M path))))
        \<and> (fs' path = FileLines (filter is_entry lines) failure \<longrightarrow>
             load_from_file lib fs' M path = load_from_file lib fs M path))
   \<and> (fs path = FileNotFound \<longrightarrow>
        load_from_file lib fs M path = (0, M, [(LogWarning, ''Proxy file not found: '' @ path)]))"
proof (intro conjI impI)
  assume "\<not> fst (validate_proxy_url lib u)
       \<or> (\<exists>parsed. urlparse lib u = Inr parsed \<and> \<not> supported_type (lower (pr_scheme parsed)))
       \<or> list_ex (\<lambda>q. Proxy.url q = u) (proxies M)"
  then have "\<not> fst (add_proxy lib M u)" by (rule add_proxy_rejects)
  then show "fst (add_proxy lib M u) = False" by simp
next
  assume "fst (add_proxy lib M u) = False"
  then show "fst (snd (add_proxy lib M u)) = M" by (simp add: add_proxy_False)
next
  assume "urlparse lib u = Inl e"
  then show "fst (add_proxy lib M u) = False" by (simp add: add_proxy_parse_failure)
next
  assume "urlparse lib u = Inr parsed' \<and> pr_port parsed' = Inl e"
  then show "fst (add_proxy lib M u) = False" by (simp add: add_proxy_parse_failure)
next
  assume f: "fs path = FileLines lines failure"
  obtain n M' logged where l: "load_lines lib M 0 lines = (n, M', logged)"
    by (cases "load_lines lib M 0 lines") auto
  have c: "n = 0 + (int (length (proxies M')) - int (length (proxies M))) \<and> prefix (proxies M) (proxies M')"
    using l by (rule load_lines_count)
  have r: "fst (load_from_file lib fs M path) = n" "fst (snd (load_from_file lib fs M path)) = M'"
    using f l by (simp_all add: load_from_file_def)
  show "fst (load_from_file lib fs M path)
          = int (length (proxies (fst (snd (load_from_file lib fs M path)))))
            - int (length (proxies M))"
    using c r by simp
  show "prefix (proxies M) (proxies (fst (snd (load_from_file lib fs M path))))"
    using c r by simp
  assume "fs' path = FileLines (filter is_entry lines) failure"
  then show "load_from_file lib fs' M path = load_from_file lib fs M path"
    using f by (simp add: load_from_file_def load_lines_skips)
next
  assume "fs path = FileNotFound"
  then show "load_from_file lib fs M path = (0, M, [(LogWarning, ''Proxy file not found: '' @ path)])"
    by (simp add: load_from_file_def)
qed

theorem add_proxy_and_load_from_file_witness:
  "add_proxy sample_lib (ProxyManager_init 3 300 ''round_robin'') ''ftp://files.example''
     = (False, ProxyManager_init 3 300 ''round_robin'',
        [(LogWarning, ''Invalid proxy URL: Proxy URL must start with one of: http://, https://, socks4://, socks5://'')])
   \<and> load_from_file sample_lib sample_fs (ProxyManager_init 3 300 ''round_robin'') ''config/proxies.txt''
     = (2, (ProxyManager_init 3 300 ''round_robin'')\<lparr>proxies := [sample_proxy, socks_proxy]\<rparr>,
        [(LogInfo, ''Added proxy: 10.0.0.1:8080 (http)''),
         (LogWarning, ''Invalid proxy URL: Proxy URL must start with one of: http://, https://, socks4://, socks5://''),
         (LogInfo, ''Added proxy: proxy.example:1080 (socks5)''),
         (LogInfo, ''Loaded 2 proxies from config/proxies.txt'')])
   \<and> load_from_file sample_lib sample_fs (ProxyManager_init 3 300 ''round_robin'') ''missing.txt''
     = (0, ProxyManager_init 3 300 ''round_robin'', [(LogWarning, ''Proxy file not found: missing.txt'')])
   \<and> add_proxy sample_lib (ProxyManager_init 3 300 ''round_robin'') ''http://10.0.0.1:99999''
     = (False, ProxyManager_init 3 300 ''round_robin'',
        [(LogWarning, ''Invalid proxy URL: Proxy URL parsing error: Port out of range 0-65535'')])"
proof -
  let ?M = "ProxyManager_init 3 300 ''round_robin''"
  have v: "\<not> fst (validate_proxy_url sample_lib ''ftp://files.example'')"
    by (simp add: validate_ftp)
  have f: "sample_fs ''config/proxies.txt'' = FileLines sample_file None"
    by (simp add: sample_fs_def)
  have m: "sample_fs ''missing.txt'' = FileNotFound"
    by (simp add: sample_fs_def)
  note inst = add_proxy_and_load_from_file
    [of sample_lib "''ftp://files.example''" ?M _ _ sample_fs "''missing.txt''" "[]" None sample_fs]
  have "load_from_file sample_lib sample_fs ?M ''missing.txt''
     = (0, ?M, [(LogWarning, ''Proxy file not found: missing.txt'')])"
    using inst m by simp
  then show ?thesis
    using v by (simp add: add_samples load_sample add_bad_port)
qed

section \<open>Stealth mode\<close>

lemma unmatched_set:
  "set (filter (\<lambda>p. p \<notin> set (filter has_admin_keyword paths)) paths)
     = {p \<in> set paths. \<not> has_admin_keyword p}"
  by auto

lemma stealth_shape:
  assumes "\<forall>xs. mset (shuffle xs) = mset xs" and "length paths > 500"
  shows "scan_target_paths shuffle ''stealth'' paths
     = take 300 (filter has_admin_keyword paths)
       @ take 200 (shuffle (remdups (filter (\<lambda>p. p \<notin> set (filter has_admin_keyword paths)) paths)))"
  using assms(2) by (simp add: scan_target_paths_def Let_def)

lemma shuffled_unmatched:
  assumes "\<forall>xs. mset (shuffle xs) = mset xs"
  shows "distinct (shuffle (remdups (filter (\<lambda>p. p \<notin> set (filter has_admin_keyword paths)) paths)))"
    and "set (shuffle (remdups (filter (\<lambda>p. p \<notin> set (filter has_admin_keyword paths)) paths)))
           = {p \<in> set paths. \<not> has_admin_keyword p}"
    and "length (shuffle (remdups (filter (\<lambda>p. p \<notin> set (filter has_admin_keyword paths)) paths)))
           = card {p \<in> set paths. \<not> has_admin_keyword p}"
proof -
  let ?u = "remdups (filter (\<lambda>p. p \<notin> set (filter has_admin_keyword paths)) paths)"
  have m: "mset (shuffle ?u) = mset ?u" using assms by simp
  have du: "distinct ?u" by simp
  show d: "distinct (shuffle ?u)" using m du by (metis mset_eq_imp_distinct_iff)
  have "set (shuffle ?u) = set ?u" using m by (rule mset_eq_setD)
  then show s: "set (shuffle ?u) = {p \<in> set paths. \<not> has_admin_keyword p}"
    using unmatched_set [of paths] by simp
  show "length (shuffle ?u) = card {p \<in> set paths. \<not> has_admin_keyword p}"
    using d s distinct_card [of "shuffle ?u"] by simp
qed

lemma unmatched_card_distinct:
  assumes "distinct paths"
  shows "card {p \<in> set paths. \<not> has_admin_keyword p}
           = length paths - length (filter has_admin_keyword paths)"
proof -
  have eq: "{p \<in> set paths. \<not> has_admin_keyword p} = set (filter (\<lambda>p. \<not> has_admin_keyword p) paths)"
    by auto
  have "distinct (filter (\<lambda>p. \<not> has_admin_keyword p) paths)"
    using assms by simp
  then have "card (set (filter (\<lambda>p. \<not> has_admin_keyword p) paths))
      = length (filter (\<lambda>p. \<not> has_admin_keyword p) paths)"
    by (rule distinct_card)
  then have "card {p \<in> set paths. \<not> has_admin_keyword p}
      = length (filter (\<lambda>p. \<not> has_admin_keyword p) paths)"
    by (simp only: eq)
  moreover have "length (filter has_admin_keyword paths)
      + length (filter (\<lambda>p. \<not> has_admin_keyword p) paths) = length paths"
    by (rule sum_length_filter_compl)
  ultimately show ?thesis by simp
qed

text \<open>
  C4 (as amended). In stealth mode with more than 500 candidate paths, the dispatched
  list is the keyword-matching paths cut to the first 300, followed by pairwise distinct
  non-matching paths, exactly \<open>min 200 n\<close> of them where \<open>n\<close> is the number of distinct
  non-matching paths; it has at most 500 elements, and for 600 pairwise distinct
  candidates of which 50 match a keyword it has exactly 250.
\<close>

theorem stealth_selection:
  assumes "\<forall>xs. mset (shuffle xs) = mset xs" and "length paths > 500"
  shows "(\<exists>selected.
           scan_target_paths shuffle ''stealth'' paths
             = take 300 (filter has_admin_keyword paths) @ selected
           \<and> distinct selected
           \<and> set selected \<subseteq> {p \<in> set paths. \<not> has_admin_keyword p}
           \<and> length selected = min 200 (card {p \<in> set paths. \<not> has_admin_keyword p}))
    \<and> length (scan_target_paths shuffle ''stealth'' paths) \<le> 500
    \<and> (distinct paths \<and> length paths = 600 \<and> length (filter has_admin_keyword paths) = 50
           \<longrightarrow> length (scan_target_paths shuffle ''stealth'' paths) = 250)"
proof (intro conjI)
  let ?rp = "shuffle (remdups (filter (\<lambda>p. p \<notin> set (filter has_admin_keyword paths)) paths))"
  let ?n = "card {p \<in> set paths. \<not> has_admin_keyword p}"
  note shape = stealth_shape [OF assms]
  note rp = shuffled_unmatched [OF assms(1), of paths]
  have d: "distinct (take 200 ?rp)" using rp(1) by (rule distinct_take)
  have s: "set (take 200 ?rp) \<subseteq> {p \<in> set paths. \<not> has_admin_keyword p}"
    using rp(2) set_take_subset [of 200 ?rp] by simp
  have l: "length (take 200 ?rp) = min 200 ?n" using rp(3) by (simp add: min.commute)
  show "\<exists>selected.
           scan_target_paths shuffle ''stealth'' paths
             = take 300 (filter has_admin_keyword paths) @ selected
           \<and> distinct selected
           \<and> set selected \<subseteq> {p \<in> set paths. \<not> has_admin_keyword p}
           \<and> length selected = min 200 ?n"
    using shape d s l by blast
  have total: "length (scan_target_paths shuffle ''stealth'' paths)
      = min (length (filter has_admin_keyword paths)) 300 + min 200 ?n"
    using l by (simp add: shape)
  show "length (scan_target_paths shuffle ''stealth'' paths) \<le> 500"
    using total by simp
  show "distinct paths \<and> length paths = 600 \<and> length (filter has_admin_keyword paths) = 50
           \<longrightarrow> length (scan_target_paths shuffle ''stealth'' paths) = 250"
  proof
    assume a: "distinct paths \<and> length paths = 600 \<and> length (filter has_admin_keyword paths) = 50"
    then have "?n = 550" using unmatched_card_distinct [of paths] by simp
    then show "length (scan_target_paths shuffle ''stealth'' paths) = 250"
      using total a by simp
  qed
qed

lemma lower_keyword_samples:
  "lower ''admin'' = ''admin''" "lower_char (CHR ''x'') = CHR ''x''"
  by code_simp+

lemma keyword_samples:
  "has_admin_keyword ''admin''" "\<not> has_admin_keyword ''x''"
  by code_simp+

lemma lower_append: "lower (a @ b) = lower a @ lower b"
  by (simp add: lower_def)

lemma lower_replicate: "lower (replicate n c) = replicate n (lower_char c)"
  by (simp add: lower_def)

lemma lower_padded:
  "lower (admin_padded n) = ''admin'' @ replicate n (CHR ''x'')"
  "lower (x_padded n) = replicate (Suc n) (CHR ''x'')"
  by (simp_all only: admin_padded_def x_padded_def lower_append lower_replicate lower_keyword_samples)

lemma not_sublist_xs:
  assumes "c \<in> set kw" and "c \<noteq> CHR ''x''"
  shows "\<not> sublist kw (replicate n (CHR ''x''))"
proof
  assume "sublist kw (replicate n (CHR ''x''))"
  then have "set kw \<subseteq> set (replicate n (CHR ''x''))" by (rule set_mono_sublist)
  then have "c \<in> set (replicate n (CHR ''x''))" using assms(1) by blast
  then show False using assms(2) by simp
qed

lemma keyword_padded:
  "has_admin_keyword (admin_padded n)"
  "\<not> has_admin_keyword (x_padded n)"
proof -
  have "sublist ''admin'' (lower (admin_padded n))"
    by (simp only: lower_padded sublist_append_rightI)
  then show "has_admin_keyword (admin_padded n)"
    by (simp add: has_admin_keyword_def admin_keywords_def)
  have "\<not> sublist kw (lower (x_padded n))" if "kw \<in> set admin_keywords" for kw
  proof -
    have "kw = ''admin'' \<or> kw = ''administrator'' \<or> kw = ''dashboard'' \<or> kw = ''panel''
        \<or> kw = ''control'' \<or> kw = ''login'' \<or> kw = ''cp''"
      using that by (simp add: admin_keywords_def)
    then have "CHR ''a'' \<in> set kw \<or> CHR ''o'' \<in> set kw \<or> CHR ''c'' \<in> set kw"
      by auto
    then obtain c where c: "c \<in> set kw" "c \<noteq> CHR ''x''"
      by auto
    have "\<not> sublist kw (replicate (Suc n) (CHR ''x''))"
      using c by (rule not_sublist_xs)
    then show ?thesis unfolding lower_padded .
  qed
  then show "\<not> has_admin_keyword (x_padded n)"
    by (simp add: has_admin_keyword_def list_ex_iff)
qed

lemma padded_distinct:
  "admin_padded n = admin_padded m \<longleftrightarrow> n = m"
  "x_padded n = x_padded m \<longleftrightarrow> n = m"
  "admin_padded n \<noteq> x_padded m"
  by (simp_all add: admin_padded_def x_padded_def)

lemma six_hundred_paths_facts:
  "length six_hundred_paths = 600"
  "distinct six_hundred_paths"
  "length (filter has_admin_keyword six_hundred_paths) = 50"
proof -
  show "length six_hundred_paths = 600"
    by (simp add: six_hundred_paths_def)
  show "distinct six_hundred_paths"
    by (auto simp: six_hundred_paths_def distinct_map inj_on_def padded_distinct)
  have "filter has_admin_keyword six_hundred_paths = map admin_padded [0..<50]"
    by (simp add: six_hundred_paths_def filter_map o_def keyword_padded)
  then show "length (filter has_admin_keyword six_hundred_paths) = 50"
    by simp
qed

lemma remdups_replicate: "0 < n \<Longrightarrow> remdups (replicate n x) = [x]"
proof (induction n)
  case 0
  then show ?case by simp
next
  case (Suc n)
  then show ?case by (cases n) simp_all
qed

theorem stealth_selection_witness:
  "length six_hundred_paths = 600
   \<and> distinct six_hundred_paths
   \<and> length (filter has_admin_keyword six_hundred_paths) = 50
   \<and> length (scan_target_paths rev ''stealth'' six_hundred_paths) = 250"
proof -
  have perm: "\<forall>xs::string list. mset (rev xs) = mset xs" by simp
  have big: "length six_hundred_paths > 500" by (simp add: six_hundred_paths_facts)
  show ?thesis
    using stealth_selection [OF perm big] six_hundred_paths_facts by simp
qed

text \<open>
  C4 as stated fails when candidates repeat: of 600 candidates, 50 times \<^verbatim>\<open>admin\<close> and
  550 times \<^verbatim>\<open>x\<close>, the set difference keeps a single non-matching path, so 51 paths are
  dispatched, not 250.
\<close>

theorem stealth_duplicates_counterexample:
  "length duplicated_paths = 600
   \<and> length (filter has_admin_keyword duplicated_paths) = 50
   \<and> length (filter (\<lambda>p. \<not> has_admin_keyword p) duplicated_paths) = 550
   \<and> scan_target_paths id ''stealth'' duplicated_paths = replicate 50 ''admin'' @ [''x'']
   \<and> length (scan_target_paths id ''stealth'' duplicated_paths) = 51"
proof -
  have r: "remdups (replicate 550 ''x'') = [''x'']"
    by (rule remdups_replicate) simp
  show ?thesis
    by (simp add: duplicated_paths_def scan_target_paths_def filter_replicate keyword_samples r
        Let_def)
qed

section \<open>Path fuzzing\<close>

lemma default_fuzzer_fields:
  "extensions default_fuzzer = [''.php'', ''.html'', ''.asp'']"
  "backup_extensions default_fuzzer = [''.bak'', ''.old'']"
  "max_variations_per_path default_fuzzer = 50"
  "include_extensions default_fuzzer"
  "include_backups default_fuzzer"
  "include_case_variations default_fuzzer"
  "include_separator_variations default_fuzzer"
  by (simp_all add: default_fuzzer_def PathFuzzer_init_def)

lemma variations_default_length: "length (variations default_fuzzer path) \<le> 20"
  by (simp add: variations_def Let_def default_fuzzer_fields)

lemma listing_length:
  assumes "\<forall>xs. mset (listing xs) = mset xs"
  shows "length (listing xs) = length xs"
  using assms mset_eq_length by blast

lemma listing_set:
  assumes "\<forall>xs. mset (listing xs) = mset xs"
  shows "set (listing xs) = set xs"
  using assms mset_eq_setD by blast

lemma slice_to_length: "0 \<le> n \<Longrightarrow> int (length (slice_to n xs)) \<le> n"
  by (simp add: slice_to_def)

lemma slice_to_all: "int (length xs) \<le> n \<Longrightarrow> slice_to n xs = xs"
  by (simp add: slice_to_def)

lemma fuzz_path_default:
  assumes "\<forall>xs. mset (listing xs) = mset xs"
  shows "fuzz_path listing default_fuzzer path = listing (remdups (variations default_fuzzer path))"
proof -
  have "length (listing (remdups (variations default_fuzzer path)))
          \<le> length (variations default_fuzzer path)"
    by (simp add: listing_length [OF assms] length_remdups_leq)
  also have "\<dots> \<le> 20" by (rule variations_default_length)
  finally have "int (length (listing (remdups (variations default_fuzzer path)))) \<le> 50" by simp
  thus ?thesis by (simp add: fuzz_path_def default_fuzzer_fields slice_to_all)
qed

lemma fuzz_path_default_set:
  assumes "\<forall>xs. mset (listing xs) = mset xs"
  shows "set (fuzz_path listing default_fuzzer path) = set (variations default_fuzzer path)"
  by (simp add: fuzz_path_default [OF assms] listing_set [OF assms])

lemma variations_admin:
  "variations default_fuzzer ''admin'' =
     [''admin'', ''admin.php'', ''admin'', ''admin.html'', ''admin'', ''admin.asp'', ''admin'',
      ''admin.bak'', ''admin.old'', ''admin'', ''ADMIN'', ''Admin'', ''Admin'', ''admin'',
      ''admin'', ''admin'']"
  by code_simp

lemma variations_nested:
  "variations default_fuzzer nested_path =
     [''/wp-admin/user_list.old.php/'', ''wp-admin/user_list.old.php'',
      ''wp-admin/user_list.old'', ''wp-admin/user_list.old.html'',
      ''wp-admin/user_list.old'', ''wp-admin/user_list.old.asp'',
      ''wp-admin/user_list.old'', ''wp-admin/user_list.old.php.bak'',
      ''wp-admin/user_list.old.bak'', ''wp-admin/user_list.old.bak.php'',
      ''wp-admin/user_list.old.php.old'', ''wp-admin/user_list.old.old'',
      ''wp-admin/user_list.old.old.php'', ''wp-admin/user_list.old.php'',
      ''WP-ADMIN/USER_LIST.OLD.PHP'', ''WpAdmin/userList.old.php'',
      ''Wp_Admin/user_List.old.php'', ''wp-admin/user-list.old.php'',
      ''wp_admin/user_list.old.php'', ''wpadmin/userlist.old.php'']"
  by code_simp

lemma narrow_fuzzer_sample:
  "fuzz_path rev (PathFuzzer_init 7 True True False True 3) ''x-y_z'' = [''xyz'', ''x_y_z'', ''x-y-z'']"
  by code_simp

text \<open>
  Claim C5. Under the default settings \<^verbatim>\<open>fuzz_path("admin")\<close> contains \<^verbatim>\<open>admin.php\<close>,
  \<^verbatim>\<open>admin.bak\<close> and \<^verbatim>\<open>ADMIN\<close>, whatever the order in which the set is listed. For every
  path the default fuzzer returns at most 50 strings, and any fuzzer whose
  \<^verbatim>\<open>max_variations_per_path\<close> is not negative returns at most that many. Two calls on
  the same path, each with its own listing order, return the same set of strings: the
  default fuzzer adds at most 20 strings, so the slice drops none and the result is the
  whole set of variations.
\<close>

theorem fuzz_path_defaults:
  assumes "\<forall>xs. mset (listing xs) = mset xs" and "\<forall>xs. mset (listing' xs) = mset xs"
  shows "''admin.php'' \<in> set (fuzz_path listing default_fuzzer ''admin'')
       \<and> ''admin.bak'' \<in> set (fuzz_path listing default_fuzzer ''admin'')
       \<and> ''ADMIN'' \<in> set (fuzz_path listing default_fuzzer ''admin'')
       \<and> int (length (fuzz_path listing default_fuzzer path)) \<le> max_variations_per_path default_fuzzer
       \<and> max_variations_per_path default_fuzzer = 50
       \<and> (0 \<le> max_variations_per_path fz
            \<longrightarrow> int (length (fuzz_path listing fz path)) \<le> max_variations_per_path fz)
       \<and> set (fuzz_path listing default_fuzzer path) = set (fuzz_path listing' default_fuzzer path)
       \<and> set (fuzz_path listing default_fuzzer path) = set (variations default_fuzzer path)"
proof -
  have a: "set (fuzz_path listing default_fuzzer ''admin'') = set (variations default_fuzzer ''admin'')"
    by (rule fuzz_path_default_set [OF assms(1)])
  have m1: "''admin.php'' \<in> set (fuzz_path listing default_fuzzer ''admin'')"
    unfolding a variations_admin by simp
  have m2: "''admin.bak'' \<in> set (fuzz_path listing default_fuzzer ''admin'')"
    unfolding a variations_admin by simp
  have m3: "''ADMIN'' \<in> set (fuzz_path listing default_fuzzer ''admin'')"
    unfolding a variations_admin by simp
  have g: "0 \<le> max_variations_per_path fz
            \<longrightarrow> int (length (fuzz_path listing fz path)) \<le> max_variations_per_path fz"
    by (simp add: fuzz_path_def slice_to_length)
  have d: "int (length (fuzz_path listing default_fuzzer path)) \<le> max_variations_per_path default_fuzzer"
    using slice_to_length [of 50 "listing (remdups (variations default_fuzzer path))"]
    by (simp add: fuzz_path_def default_fuzzer_fields)
  have s1: "set (fuzz_path listing default_fuzzer path) = set (variations default_fuzzer path)"
    by (rule fuzz_path_default_set [OF assms(1)])
  have s2: "set (fuzz_path listing' default_fuzzer path) = set (variations default_fuzzer path)"
    by (rule fuzz_path_default_set [OF assms(2)])
  from m1 m2 m3 g d s1 s2 show ?thesis by (simp add: default_fuzzer_fields)
qed

theorem fuzz_path_defaults_witness:
  "''admin.php'' \<in> set (fuzz_path rev default_fuzzer ''admin'')
   \<and> ''admin.bak'' \<in> set (fuzz_path rev default_fuzzer ''admin'')
   \<and> ''ADMIN'' \<in> set (fuzz_path rev default_fuzzer ''admin'')
   \<and> int (length (fuzz_path rev default_fuzzer nested_path)) \<le> 50
   \<and> set (fuzz_path rev default_fuzzer nested_path) = set (fuzz_path (\<lambda>xs. xs) default_fuzzer nested_path)
   \<and> ''wp-admin/user_list.old.bak.php'' \<in> set (fuzz_path rev default_fuzzer nested_path)
   \<and> int (length (fuzz_path rev (PathFuzzer_init 7 True True False True 3) nested_path)) \<le> 3
   \<and> fuzz_path rev (PathFuzzer_init 7 True True False True 3) ''x-y_z'' = [''xyz'', ''x_y_z'', ''x-y-z'']"
proof -
  note inst = fuzz_path_defaults [of rev "\<lambda>xs. xs" nested_path "PathFuzzer_init 7 True True False True 3"]
  have h: "\<forall>xs::string list. mset (rev xs) = mset xs" "\<forall>xs::string list. mset ((\<lambda>xs. xs) xs) = mset xs"
    by simp_all
  have mx: "max_variations_per_path (PathFuzzer_init 7 True True False True 3) = 3"
    by (simp add: PathFuzzer_init_def)
  note c = inst [OF h]
  have p1: "''admin.php'' \<in> set (fuzz_path rev default_fuzzer ''admin'')"
    using c by blast
  have p2: "''admin.bak'' \<in> set (fuzz_path rev default_fuzzer ''admin'')"
    using c by blast
  have p3: "''ADMIN'' \<in> set (fuzz_path rev default_fuzzer ''admin'')"
    using c by blast
  have p4: "int (length (fuzz_path rev default_fuzzer nested_path)) \<le> 50"
    using c by simp
  have p5: "set (fuzz_path rev default_fuzzer nested_path) = set (fuzz_path (\<lambda>xs. xs) default_fuzzer nested_path)"
    using c by blast
  have s: "set (fuzz_path rev default_fuzzer nested_path) = set (variations default_fuzzer nested_path)"
    using c by blast
  have p6: "int (length (fuzz_path rev (PathFuzzer_init 7 True True False True 3) nested_path)) \<le> 3"
    using c mx by simp
  have p7: "''wp-admin/user_list.old.bak.php'' \<in> set (fuzz_path rev default_fuzzer nested_path)"
    unfolding s variations_nested by simp
  from p1 p2 p3 p4 p5 p6 p7 narrow_fuzzer_sample show ?thesis by blast
qed

end
